theory Spec2Isabelle
  imports Complex_Main "HOL-Library.Product_Lexorder" "HOL-Library.Log_Nat"
begin

section \<open>Vectors and the random source\<close>

text \<open>
  The program computes on JavaScript numbers, which are IEEE-754 doubles. The quantities
  that decide how many objects are built (the number of rocks of a ring, the number of
  foliage instances, the accumulated face areas that the foliage sampler compares) are
  computed as the code computes them: every operation is rounded to the nearest double,
  and the infinities and NaN are values (section \<open>JavaScript numbers\<close>). Positions,
  heights, angles and weights are \<^typ>\<open>real\<close>: for them the model is the exact-arithmetic
  reading of the code, and where the code itself tests for a case that exact arithmetic can
  reach (a zero denominator, an explicit \<^verbatim>\<open>Infinity\<close> weight), the case is a branch of the
  model.

  \<^verbatim>\<open>THREE.Vector3\<close> and \<^verbatim>\<open>THREE.Vector2\<close> are triples and pairs of numbers. Their fields
  are \<^verbatim>\<open>x\<close>, \<^verbatim>\<open>y\<close>, \<^verbatim>\<open>z\<close> in the source; the selectors carry a prefix here because a
  one-letter constant would capture the variables of every later statement.
\<close>

datatype vec3 = Vec3 (vx: real) (vy: real) (vz: real)

datatype vec2 = Vec2 (px: real) (py: real)

text \<open>
  \<^verbatim>\<open>Math.random()\<close> is a stream of numbers that every call advances. The stream is an
  explicit argument, returned advanced, so that mocking the random source is choosing the
  stream.
\<close>

type_synonym rng = "nat \<Rightarrow> real"

definition random :: "rng \<Rightarrow> real \<times> rng" where
  "random g = (g 0, \<lambda>n. g (Suc n))"

text \<open>\<^verbatim>\<open>THREE.MathUtils.randFloat(low, high) = low + Math.random() * (high - low)\<close>.\<close>

definition randFloat :: "real \<Rightarrow> real \<Rightarrow> rng \<Rightarrow> real \<times> rng" where
  "randFloat low high g = (let (r, g') = random g in (low + r * (high - low), g'))"

section \<open>JavaScript numbers\<close>

text \<open>
  A JavaScript number is an IEEE 754 double: a finite value, one of the two infinities, or
  NaN. (The model does not tell the negative zero from zero; nothing that is modelled
  below divides by a zero or takes its sign.)
\<close>

datatype number = Num real | PlusInfinity | MinusInfinity | NaN

datatype error = RangeError | TypeError

text \<open>
  The result of an arithmetic operation is the exact result rounded to the nearest double,
  a tie going to the double whose last bit is zero. \<open>binade x\<close> is the exponent \<open>e\<close> with
  \<open>2^e \<le> |x| < 2^(e+1)\<close>; the doubles of that binade are the multiples of \<open>2^(e-52)\<close>, and
  below \<open>2^(-1022)\<close> (the subnormal numbers) the multiples of \<open>2^(-1074)\<close>. \<open>round53\<close>
  rounds to that grid; \<open>fl64\<close> also turns a result of magnitude \<open>2^1024\<close> or more into an
  infinity.
\<close>

definition roundTiesToEven :: "real \<Rightarrow> int" where
  "roundTiesToEven x =
     (let f = \<lfloor>x\<rfloor>; d = x - of_int f
      in if d < 1/2 then f else if 1/2 < d then f + 1 else if even f then f else f + 1)"

definition binade :: "real \<Rightarrow> int" where
  "binade x = (if 1 \<le> \<bar>x\<bar> then bitlen \<lfloor>\<bar>x\<bar>\<rfloor> - 1 else - bitlen (\<lceil>1 / \<bar>x\<bar>\<rceil> - 1))"

definition quantum :: "real \<Rightarrow> real" where
  "quantum x = 2 powi (max (binade x) (- 1022) - 52)"

definition round53 :: "real \<Rightarrow> real" where
  "round53 x = of_int (roundTiesToEven (x / quantum x)) * quantum x"

definition fl64 :: "real \<Rightarrow> number" where
  "fl64 x =
     (let y = round53 x
      in if 2 ^ 1024 \<le> y then PlusInfinity
         else if y \<le> - (2 ^ 1024) then MinusInfinity
         else Num y)"

text \<open>
  The operators \<^verbatim>\<open>*\<close> and \<^verbatim>\<open>+\<close>. An infinity times zero and the sum of the two infinities
  are NaN, and NaN is contagious.
\<close>

definition signOf :: "number \<Rightarrow> int" where
  "signOf a =
     (case a of
        Num x \<Rightarrow> if 0 < x then 1 else if x < 0 then - 1 else 0
      | PlusInfinity \<Rightarrow> 1
      | MinusInfinity \<Rightarrow> - 1
      | NaN \<Rightarrow> 0)"

definition mulNumber :: "number \<Rightarrow> number \<Rightarrow> number" where
  "mulNumber a b =
     (case (a, b) of
        (Num x, Num y) \<Rightarrow> fl64 (x * y)
      | _ \<Rightarrow> if a = NaN \<or> b = NaN \<or> signOf a * signOf b = 0 then NaN
             else if 0 < signOf a * signOf b then PlusInfinity else MinusInfinity)"

definition addNumber :: "number \<Rightarrow> number \<Rightarrow> number" where
  "addNumber a b =
     (case (a, b) of
        (Num x, Num y) \<Rightarrow> fl64 (x + y)
      | (Num x, _) \<Rightarrow> b
      | (_, Num y) \<Rightarrow> a
      | _ \<Rightarrow> if a = b then a else NaN)"

text \<open>
  \<^verbatim>\<open>Math.round\<close> (the nearest integer, a half going up), \<^verbatim>\<open>Math.floor\<close>, \<^verbatim>\<open>Math.max\<close> and
  \<^verbatim>\<open>Math.min\<close>. They are exact; on an infinity or NaN the first two change nothing.
\<close>

definition mathRound :: "number \<Rightarrow> number" where
  "mathRound a = (case a of Num x \<Rightarrow> Num (of_int \<lfloor>x + 1/2\<rfloor>) | _ \<Rightarrow> a)"

definition mathFloor :: "number \<Rightarrow> number" where
  "mathFloor a = (case a of Num x \<Rightarrow> Num (of_int \<lfloor>x\<rfloor>) | _ \<Rightarrow> a)"

definition mathMax :: "number \<Rightarrow> number \<Rightarrow> number" where
  "mathMax a b =
     (if a = NaN \<or> b = NaN then NaN
      else if a = PlusInfinity \<or> b = PlusInfinity then PlusInfinity
      else case (a, b) of
             (Num x, Num y) \<Rightarrow> Num (max x y)
           | (Num x, _) \<Rightarrow> a
           | _ \<Rightarrow> b)"

definition mathMin :: "number \<Rightarrow> number \<Rightarrow> number" where
  "mathMin a b =
     (if a = NaN \<or> b = NaN then NaN
      else if a = MinusInfinity \<or> b = MinusInfinity then MinusInfinity
      else case (a, b) of
             (Num x, Num y) \<Rightarrow> Num (min x y)
           | (Num x, _) \<Rightarrow> a
           | _ \<Rightarrow> b)"

text \<open>
  \<^verbatim>\<open>Math.pow\<close> with a natural number as the exponent. With the exponent 1, the only one
  the source uses, every engine returns the base itself; for a larger exponent the
  language leaves the accuracy to the engine, and the model takes the correctly rounded
  power.
\<close>

definition mathPow :: "number \<Rightarrow> nat \<Rightarrow> number" where
  "mathPow a p =
     (if p = 0 then Num 1 else if p = 1 then a
      else case a of
             Num x \<Rightarrow> fl64 (x ^ p)
           | PlusInfinity \<Rightarrow> PlusInfinity
           | MinusInfinity \<Rightarrow> (if even p then PlusInfinity else MinusInfinity)
           | NaN \<Rightarrow> NaN)"

text \<open>
  \<^verbatim>\<open>new Array(len)\<close> with a number as the argument gives an array of that length when the
  number is an integer from 0 to \<open>2^32 - 1\<close> and throws a \<^verbatim>\<open>RangeError\<close> otherwise.
  \<^verbatim>\<open>Array.from({ length: n }, f)\<close> first turns \<^verbatim>\<open>n\<close> into a length (\<^verbatim>\<open>ToLength\<close>: NaN and
  everything below 1 become 0, the fraction is dropped, the result is at most
  \<open>2^53 - 1\<close>) and then creates the array in the same way.
\<close>

definition arrayCreate :: "number \<Rightarrow> error + nat" where
  "arrayCreate len =
     (case len of
        Num x \<Rightarrow> if x = of_int \<lfloor>x\<rfloor> \<and> 0 \<le> x \<and> x < 2 ^ 32 then Inr (nat \<lfloor>x\<rfloor>)
                 else Inl RangeError
      | _ \<Rightarrow> Inl RangeError)"

definition toLength :: "number \<Rightarrow> number" where
  "toLength n =
     (case n of
        Num x \<Rightarrow> Num (of_int (min (max \<lfloor>x\<rfloor> 0) (2 ^ 53 - 1)))
      | PlusInfinity \<Rightarrow> Num (2 ^ 53 - 1)
      | _ \<Rightarrow> Num 0)"

definition arrayFrom :: "number \<Rightarrow> error + nat" where
  "arrayFrom n = arrayCreate (toLength n)"

text \<open>
  The number of turns of a loop \<^verbatim>\<open>for (let i = 0; i < n; i++)\<close>: the comparison with NaN
  is false, and under \<^verbatim>\<open>+Infinity\<close> the loop does not end (\<open>None\<close>).
\<close>

definition loopTurns :: "number \<Rightarrow> nat option" where
  "loopTurns n =
     (case n of
        Num x \<Rightarrow> Some (nat \<lceil>x\<rceil>)
      | PlusInfinity \<Rightarrow> None
      | _ \<Rightarrow> Some 0)"

lemma pow2_pos: "0 < (2::real) powi e"
  by (simp add: zero_less_power_int)

lemma pow2_mono: "a \<le> b \<Longrightarrow> (2::real) powi a \<le> 2 powi b"
  using power_int_strict_increasing [of a b "2::real"] by (cases "a = b") auto

lemma pow2_less: "a < b \<Longrightarrow> (2::real) powi a < 2 powi b"
  by (rule power_int_strict_increasing) simp_all

lemma pow2_add: "(2::real) powi (a + b) = 2 powi a * 2 powi b"
  by (rule power_int_add) simp

lemma pow2_diff: "(2::real) powi (a - b) = 2 powi a / 2 powi b"
  by (rule power_int_diff) simp

lemma binade_bounds:
  assumes "x \<noteq> 0"
  shows "2 powi binade x \<le> \<bar>x\<bar>" and "\<bar>x\<bar> < 2 powi (binade x + 1)"
proof -
  have "2 powi binade x \<le> \<bar>x\<bar> \<and> \<bar>x\<bar> < 2 powi (binade x + 1)"
  proof (cases "1 \<le> \<bar>x\<bar>")
    case True
    define n where "n = \<lfloor>\<bar>x\<bar>\<rfloor>"
    have n: "0 < n" using True by (simp add: n_def)
    have b: "binade x = bitlen n - 1" using True by (simp add: binade_def n_def)
    have b1: "1 \<le> bitlen n" using n by (simp add: bitlen_alt_def)
    from bitlen_bounds [OF n] have lo: "2 ^ nat (bitlen n - 1) \<le> n" and hi: "n < 2 ^ nat (bitlen n)"
      by simp_all
    have "(2::real) powi (bitlen n - 1) = 2 ^ nat (bitlen n - 1)"
      using b1 by (simp add: power_int_nonneg_exp)
    also have "\<dots> \<le> of_int n" using lo by (metis of_int_le_iff of_int_numeral of_int_power)
    also have "\<dots> \<le> \<bar>x\<bar>" by (simp add: n_def)
    finally have 1: "2 powi binade x \<le> \<bar>x\<bar>" by (simp add: b)
    have "n + 1 \<le> 2 ^ nat (bitlen n)" using hi by simp
    then have "real_of_int (n + 1) \<le> 2 ^ nat (bitlen n)"
      by (metis of_int_le_iff of_int_numeral of_int_power)
    moreover have "\<bar>x\<bar> < real_of_int (n + 1)" by (simp add: n_def)
    moreover have "(2::real) powi (bitlen n - 1 + 1) = 2 ^ nat (bitlen n)"
      using b1 by (simp add: power_int_nonneg_exp)
    ultimately have 2: "\<bar>x\<bar> < 2 powi (binade x + 1)" by (simp add: b)
    from 1 2 show ?thesis by simp
  next
    case False
    define q where "q = 1 / \<bar>x\<bar>"
    define m where "m = \<lceil>q\<rceil> - 1"
    have x: "0 < \<bar>x\<bar>" "\<bar>x\<bar> < 1" using assms False by simp_all
    have q: "1 < q" using x by (simp add: q_def)
    have m: "0 < m" using q by (simp add: m_def less_ceiling_iff)
    have b: "binade x = - bitlen m" using False by (simp add: binade_def m_def q_def)
    have b1: "1 \<le> bitlen m" using m by (simp add: bitlen_alt_def)
    from bitlen_bounds [OF m] have lo: "2 ^ nat (bitlen m - 1) \<le> m" and hi: "m < 2 ^ nat (bitlen m)"
      by simp_all
    have "q \<le> of_int (m + 1)" by (simp add: m_def)
    also have "m + 1 \<le> 2 ^ nat (bitlen m)" using hi by simp
    then have "real_of_int (m + 1) \<le> 2 ^ nat (bitlen m)"
      by (metis of_int_le_iff of_int_numeral of_int_power)
    finally have "q \<le> 2 ^ nat (bitlen m)" .
    moreover have "(2::real) powi (bitlen m) = 2 ^ nat (bitlen m)"
      using b1 by (simp add: power_int_nonneg_exp)
    ultimately have "1 / \<bar>x\<bar> \<le> 2 powi (bitlen m)" by (simp add: q_def)
    then have "1 \<le> 2 powi (bitlen m) * \<bar>x\<bar>" using x by (simp add: field_simps)
    then have 1: "2 powi binade x \<le> \<bar>x\<bar>"
      by (simp add: b power_int_minus field_simps pow2_pos)
    have "real_of_int m < q" unfolding m_def using ceiling_correct [of q] by simp
    moreover have "(2::real) ^ nat (bitlen m - 1) \<le> of_int m"
      using lo by (metis of_int_le_iff of_int_numeral of_int_power)
    moreover have "(2::real) powi (bitlen m - 1) = 2 ^ nat (bitlen m - 1)"
      using b1 by (simp add: power_int_nonneg_exp)
    ultimately have "2 powi (bitlen m - 1) < q" by linarith
    then have "2 powi (bitlen m - 1) < 1 / \<bar>x\<bar>" by (simp only: q_def)
    then have "\<bar>x\<bar> * 2 powi (bitlen m - 1) < 1" using x by (simp add: field_simps)
    then have "\<bar>x\<bar> < 1 / 2 powi (bitlen m - 1)"
      using pow2_pos [of "bitlen m - 1"] by (simp only: pos_less_divide_eq)
    moreover have "binade x + 1 = - (bitlen m - 1)" by (simp add: b)
    then have "(2::real) powi (binade x + 1) = 1 / 2 powi (bitlen m - 1)"
      by (simp only: power_int_minus_divide)
    ultimately have 2: "\<bar>x\<bar> < 2 powi (binade x + 1)" by simp
    from 1 2 show ?thesis by simp
  qed
  then show "2 powi binade x \<le> \<bar>x\<bar>" and "\<bar>x\<bar> < 2 powi (binade x + 1)" by simp_all
qed

lemma binade_unique:
  assumes "2 powi e \<le> \<bar>x\<bar>" "\<bar>x\<bar> < 2 powi (e + 1)"
  shows "binade x = e"
proof -
  have "x \<noteq> 0"
  proof
    assume "x = 0"
    with assms(1) have "2 powi e \<le> (0::real)" by simp
    with pow2_pos [of e] show False by linarith
  qed
  note b = binade_bounds [OF this]
  have "\<not> e + 1 \<le> binade x"
  proof
    assume "e + 1 \<le> binade x"
    from pow2_mono [OF this] b(1) assms(2) show False by simp
  qed
  moreover have "\<not> binade x + 1 \<le> e"
  proof
    assume "binade x + 1 \<le> e"
    from pow2_mono [OF this] b(2) assms(1) show False by simp
  qed
  ultimately show ?thesis by simp
qed

lemma roundTiesToEven_of_int: "roundTiesToEven (of_int n) = n"
  by (simp add: roundTiesToEven_def)

lemma roundTiesToEven_range: "\<lfloor>x\<rfloor> \<le> roundTiesToEven x \<and> roundTiesToEven x \<le> \<lfloor>x\<rfloor> + 1"
  by (simp add: roundTiesToEven_def Let_def)

lemma roundTiesToEven_mono:
  assumes "x \<le> y"
  shows "roundTiesToEven x \<le> roundTiesToEven y"
proof (cases "\<lfloor>x\<rfloor> = \<lfloor>y\<rfloor>")
  case True
  with assms show ?thesis by (auto simp: roundTiesToEven_def Let_def)
next
  case False
  with assms have "\<lfloor>x\<rfloor> + 1 \<le> \<lfloor>y\<rfloor>" using floor_mono [OF assms] by linarith
  with roundTiesToEven_range [of x] roundTiesToEven_range [of y] show ?thesis by linarith
qed

lemma roundTiesToEven_ge: "of_int n \<le> x \<Longrightarrow> n \<le> roundTiesToEven x"
  using roundTiesToEven_mono [of "of_int n" x] by (simp add: roundTiesToEven_of_int)

lemma roundTiesToEven_le: "x \<le> of_int n \<Longrightarrow> roundTiesToEven x \<le> n"
  using roundTiesToEven_mono [of x "of_int n"] by (simp add: roundTiesToEven_of_int)

lemma roundTiesToEven_minus: "roundTiesToEven (- x) = - roundTiesToEven x"
proof (cases "x = of_int \<lfloor>x\<rfloor>")
  case True
  then obtain n where "x = of_int n" ..
  then have "- x = of_int (- n)" by simp
  then show ?thesis unfolding \<open>x = of_int n\<close> by (simp only: roundTiesToEven_of_int)
next
  case False
  then have c: "\<lceil>x\<rceil> = \<lfloor>x\<rfloor> + 1" by (simp add: ceiling_altdef)
  have f: "\<lfloor>- x\<rfloor> = - \<lfloor>x\<rfloor> - 1" using c by (simp add: floor_minus)
  show ?thesis
    unfolding roundTiesToEven_def Let_def f by (simp; linarith?)
qed

lemma pow2_split: "(2::real) powi a = 2 powi b * 2 powi (a - b)"
  using pow2_add [of b "a - b"] by simp

lemma quantum_pos: "0 < quantum x"
  by (simp add: quantum_def pow2_pos)

lemma round53_zero: "round53 0 = 0"
  by (simp add: round53_def roundTiesToEven_def)

lemma binade_minus: "binade (- x) = binade x"
  by (simp add: binade_def)

lemma round53_minus: "round53 (- x) = - round53 x"
  by (simp add: round53_def quantum_def binade_minus roundTiesToEven_minus)

lemma round53_nonneg: "0 \<le> x \<Longrightarrow> 0 \<le> round53 x"
proof -
  assume "0 \<le> x"
  then have "of_int 0 \<le> x / quantum x" using quantum_pos [of x] by simp
  from roundTiesToEven_ge [OF this] show ?thesis
    using quantum_pos [of x] by (simp add: round53_def)
qed

text \<open>The rounded value lies on the grid of its binade and does not leave the binade's closure.\<close>

lemma round53_upper:
  assumes "0 < x" "max (binade x) (- 1022) \<le> e"
  shows "round53 x \<le> 2 powi (e + 1)"
proof -
  define k where "k = max (binade x) (- 1022)"
  have q: "quantum x = 2 powi (k - 52)" by (simp add: quantum_def k_def)
  have "x < 2 powi (binade x + 1)" using binade_bounds(2) [of x] assms(1) by simp
  also have "\<dots> \<le> 2 powi (k + 1)" by (rule pow2_mono) (simp add: k_def)
  finally have "x < 2 powi (k + 1)" .
  moreover have split: "(2::real) powi (k + 1) = 2 powi 53 * 2 powi (k - 52)"
    using pow2_split [of "k + 1" 53] by simp
  ultimately have "x / quantum x < 2 powi 53"
    using pow2_pos [of "k - 52"] by (simp add: q pos_divide_less_eq)
  then have "x / quantum x \<le> of_int (2 ^ 53)" by simp
  from roundTiesToEven_le [OF this]
  have "real_of_int (roundTiesToEven (x / quantum x)) \<le> 2 powi 53"
    by (metis of_int_le_iff of_int_numeral of_int_power power_int_numeral)
  then have "round53 x \<le> 2 powi 53 * 2 powi (k - 52)"
    unfolding round53_def q using pow2_pos [of "k - 52"] by (simp add: mult_right_mono)
  also have "\<dots> = 2 powi (k + 1)" using split by simp
  also have "\<dots> \<le> 2 powi (e + 1)" by (rule pow2_mono) (use assms(2) in \<open>simp add: k_def\<close>)
  finally show ?thesis .
qed

lemma round53_lower:
  assumes "0 < x" "- 1022 \<le> binade x"
  shows "2 powi binade x \<le> round53 x"
proof -
  define k where "k = binade x"
  have q: "quantum x = 2 powi (k - 52)" using assms(2) by (simp add: quantum_def k_def max_def)
  have "2 powi k \<le> x" using binade_bounds(1) [of x] assms(1) by (simp add: k_def)
  moreover have split: "(2::real) powi k = 2 powi 52 * 2 powi (k - 52)"
    using pow2_split [of k 52] by simp
  ultimately have "2 powi 52 \<le> x / quantum x"
    using pow2_pos [of "k - 52"] by (simp add: q pos_le_divide_eq)
  then have "of_int (2 ^ 52) \<le> x / quantum x" by simp
  from roundTiesToEven_ge [OF this]
  have "2 powi 52 \<le> real_of_int (roundTiesToEven (x / quantum x))"
    by (metis of_int_le_iff of_int_numeral of_int_power power_int_numeral)
  then have "2 powi 52 * 2 powi (k - 52) \<le> round53 x"
    unfolding round53_def q using pow2_pos [of "k - 52"] by (simp add: mult_right_mono)
  then show ?thesis using split by (simp add: k_def)
qed

lemma binade_mono:
  assumes "0 < x" "x \<le> y"
  shows "binade x \<le> binade y"
proof (rule ccontr)
  assume "\<not> binade x \<le> binade y"
  then have "binade y + 1 \<le> binade x" by simp
  from pow2_mono [OF this] binade_bounds(1) [of x] binade_bounds(2) [of y] assms
  show False by simp
qed

lemma round53_mono_pos:
  assumes "0 < x" "x \<le> y"
  shows "round53 x \<le> round53 y"
proof -
  define ex where "ex = max (binade x) (- 1022)"
  define ey where "ey = max (binade y) (- 1022)"
  have le: "ex \<le> ey" using binade_mono [OF assms] by (simp add: ex_def ey_def)
  show ?thesis
  proof (cases "ex = ey")
    case True
    then have q: "quantum x = quantum y" by (simp add: quantum_def ex_def ey_def)
    have "x / quantum y \<le> y / quantum y"
      using assms(2) quantum_pos [of y] by (simp add: divide_right_mono)
    from roundTiesToEven_mono [OF this] show ?thesis
      unfolding round53_def q using quantum_pos [of y] by (simp add: mult_right_mono)
  next
    case False
    with le have lt: "ex + 1 \<le> ey" by simp
    then have by': "- 1022 \<le> binade y" "ey = binade y" by (simp_all add: ey_def ex_def)
    have "round53 x \<le> 2 powi (ex + 1)"
      by (rule round53_upper [OF assms(1)]) (simp add: ex_def)
    also have "\<dots> \<le> 2 powi ey" by (rule pow2_mono [OF lt])
    also have "\<dots> \<le> round53 y"
      using round53_lower [of y] assms by' by simp
    finally show ?thesis .
  qed
qed

lemma round53_mono:
  assumes "x \<le> y"
  shows "round53 x \<le> round53 y"
proof -
  consider "0 < x" | "x \<le> 0" "0 \<le> y" | "y < 0" using assms by linarith
  then show ?thesis
  proof cases
    case 1
    then show ?thesis using assms by (rule round53_mono_pos)
  next
    case 2
    have "round53 x \<le> 0" using round53_nonneg [of "- x"] 2(1) by (simp add: round53_minus)
    also have "0 \<le> round53 y" using 2(2) by (rule round53_nonneg)
    finally show ?thesis .
  next
    case 3
    have "round53 (- y) \<le> round53 (- x)"
      by (rule round53_mono_pos) (use 3 assms in simp_all)
    then show ?thesis by (simp add: round53_minus)
  qed
qed

text \<open>Numbers on the grid are not moved.\<close>

lemma round53_grid:
  assumes "\<bar>m\<bar> \<le> 2 ^ 53" "- 1074 \<le> k"
  shows "round53 (of_int m * 2 powi k) = of_int m * 2 powi k"
proof (cases "m = 0")
  case True
  then show ?thesis by (simp add: round53_zero)
next
  case False
  define y :: real where "y = of_int m * 2 powi k"
  define k' where "k' = max (binade y) (- 1022) - 52"
  have y0: "y \<noteq> 0" using False pow2_pos [of k] by (simp add: y_def)
  have absy: "\<bar>y\<bar> = of_int \<bar>m\<bar> * 2 powi k"
    using pow2_pos [of k] by (simp add: y_def abs_mult)
  have "\<exists>j. y = of_int j * 2 powi k'"
  proof (cases "\<bar>m\<bar> = 2 ^ 53")
    case True
    have "\<bar>y\<bar> = 2 powi 53 * 2 powi k" by (simp add: absy True)
    then have ay: "\<bar>y\<bar> = 2 powi (53 + k)" using pow2_add [of 53 k] by simp
    have "binade y = 53 + k"
      by (rule binade_unique) (simp_all add: ay pow2_less)
    then have k': "k' = k + 1" using assms(2) by (simp add: k'_def)
    have "(2::real) powi k' = 2 * 2 powi k" using pow2_add [of 1 k] by (simp add: k' add.commute)
    moreover obtain j where "m = 2 * j"
    proof -
      have "even \<bar>m\<bar>" by (simp add: True)
      then have "even m" by simp
      then show ?thesis using that by (auto elim: evenE)
    qed
    ultimately have "y = of_int j * 2 powi k'" by (simp add: y_def)
    then show ?thesis ..
  next
    case False
    with assms(1) have "\<bar>m\<bar> + 1 \<le> 2 ^ 53" by simp
    then have "real_of_int (\<bar>m\<bar> + 1) \<le> 2 ^ 53"
      by (metis of_int_le_iff of_int_numeral of_int_power)
    then have "real_of_int \<bar>m\<bar> < 2 powi 53" by simp
    then have "\<bar>y\<bar> < 2 powi 53 * 2 powi k"
      unfolding absy using pow2_pos [of k] by (simp add: mult_strict_right_mono)
    then have ay: "\<bar>y\<bar> < 2 powi (53 + k)" using pow2_add [of 53 k] by simp
    have "\<not> 53 + k \<le> binade y"
    proof
      assume "53 + k \<le> binade y"
      from pow2_mono [OF this] binade_bounds(1) [OF y0] ay show False by simp
    qed
    then have "k' \<le> k" using assms(2) by (simp add: k'_def)
    then obtain n where n: "k = k' + int n" by (metis zle_iff_zadd)
    have "(2::real) powi k = 2 ^ n * 2 powi k'"
      using pow2_add [of "int n" k'] by (simp add: n add.commute)
    then have "y = of_int (m * 2 ^ n) * 2 powi k'" by (simp add: y_def)
    then show ?thesis ..
  qed
  then obtain j where j: "y = of_int j * 2 powi k'" ..
  have q: "quantum y = 2 powi k'" by (simp add: quantum_def k'_def)
  have "y / 2 powi k' = of_int j" using pow2_pos [of k'] by (simp add: j)
  then have "y / quantum y = of_int j" by (simp only: q)
  then have "round53 y = of_int j * 2 powi k'"
    by (simp only: round53_def roundTiesToEven_of_int q)
  then have "round53 y = y" by (simp only: j)
  then show ?thesis by (simp only: y_def)
qed

lemma round53_on_grid:
  "\<exists>m k. round53 x = of_int m * 2 powi k \<and> \<bar>m\<bar> \<le> 2 ^ 53 \<and> - 1074 \<le> k"
proof -
  define k where "k = max (binade x) (- 1022) - 52"
  define m where "m = roundTiesToEven (x / quantum x)"
  have q: "quantum x = 2 powi k" by (simp add: quantum_def k_def)
  have r: "round53 x = of_int m * 2 powi k" by (simp add: round53_def m_def q)
  have "\<bar>m\<bar> \<le> 2 ^ 53"
  proof (cases "x = 0")
    case True
    then show ?thesis by (simp add: m_def roundTiesToEven_def)
  next
    case False
    have "\<bar>x\<bar> < 2 powi (binade x + 1)" using binade_bounds(2) [OF False] .
    also have "\<dots> \<le> 2 powi (k + 53)" by (rule pow2_mono) (simp add: k_def)
    also have "\<dots> = 2 powi 53 * 2 powi k" using pow2_add [of 53 k] by (simp add: add.commute)
    finally have "\<bar>x\<bar> / 2 powi k < 2 powi 53"
      using pow2_pos [of k] by (simp add: pos_divide_less_eq)
    then have "\<bar>x / quantum x\<bar> < 2 ^ 53" using pow2_pos [of k] by (simp add: q)
    then have "x / quantum x < 2 ^ 53" "- (2 ^ 53) < x / quantum x"
      by (simp_all only: abs_less_iff) linarith
    then have "x / quantum x \<le> of_int (2 ^ 53)" "of_int (- (2 ^ 53)) \<le> x / quantum x"
      by simp_all
    from roundTiesToEven_le [OF this(1)] roundTiesToEven_ge [OF this(2)]
    show ?thesis by (simp add: m_def abs_le_iff)
  qed
  moreover have "- 1074 \<le> k" by (simp add: k_def)
  ultimately show ?thesis using r by blast
qed

lemma round53_idem: "round53 (round53 x) = round53 x"
  using round53_on_grid [of x] round53_grid by metis

lemma round53_le_double: "x \<le> round53 d \<Longrightarrow> round53 x \<le> round53 d"
  using round53_mono [of x "round53 d"] by (simp add: round53_idem)

section \<open>Noise field: \<^verbatim>\<open>generateNoise\<close>\<close>

text \<open>The table of harmonics, as (freq, amp) pairs in the source's order.\<close>

definition harmonics :: "(real \<times> real) list" where
  "harmonics = [(1, 1.0), (2, 0.5), (5, 0.25), (9, 0.125)]"

text \<open>\<^verbatim>\<open>harmonics.forEach(h => totalAmplitude += h.amp)\<close>\<close>

definition totalAmplitude :: real where
  "totalAmplitude = foldl (\<lambda>t h. t + snd h) 0 harmonics"

text \<open>
  The loop over the harmonics: each draws its own phase and adds its sine to every entry
  of \<^verbatim>\<open>noiseValues\<close>.
\<close>

fun addHarmonics :: "nat \<Rightarrow> real \<Rightarrow> (real \<times> real) list \<Rightarrow> rng \<Rightarrow> real list \<Rightarrow> real list \<times> rng" where
  "addHarmonics numPoints phaseOffset [] g noiseValues = (noiseValues, g)"
| "addHarmonics numPoints phaseOffset ((freq, amp) # hs) g noiseValues =
     (let (r, g') = random g;
          phase = phaseOffset + r * 2 * pi
      in addHarmonics numPoints phaseOffset hs g'
           (map (\<lambda>i. noiseValues ! i
                      + sin ((real i / real numPoints) * 2 * pi * freq + phase) * amp)
                [0..<numPoints]))"

definition generateNoise :: "nat \<Rightarrow> real \<Rightarrow> rng \<Rightarrow> real list \<times> rng" where
  "generateNoise numPoints phaseOffset g =
     (let (noiseValues, g') =
            addHarmonics numPoints phaseOffset harmonics g (replicate numPoints 0)
      in (map (\<lambda>v. v / totalAmplitude) noiseValues, g'))"

lemma totalAmplitude_value: "totalAmplitude = 1.875"
  by (simp add: totalAmplitude_def harmonics_def)

lemma addHarmonics_length:
  "length vs = n \<Longrightarrow> length (fst (addHarmonics n off hs g vs)) = n"
  by (induction hs arbitrary: g vs) (auto simp: random_def Let_def split: prod.splits)

lemma addHarmonics_bound:
  "length vs = n \<Longrightarrow> (\<And>i. i < n \<Longrightarrow> \<bar>vs ! i\<bar> \<le> b) \<Longrightarrow> i < n \<Longrightarrow>
   \<bar>fst (addHarmonics n off hs g vs) ! i\<bar> \<le> b + sum_list (map (\<lambda>h. \<bar>snd h\<bar>) hs)"
proof (induction hs arbitrary: g vs b)
  case Nil
  then show ?case by simp
next
  case (Cons h hs)
  obtain freq amp where h: "h = (freq, amp)" by (cases h)
  define phase where "phase = off + g 0 * 2 * pi"
  define vs' where
    "vs' = map (\<lambda>i. vs ! i + sin ((real i / real n) * 2 * pi * freq + phase) * amp) [0..<n]"
  have len: "length vs' = n" by (simp add: vs'_def)
  have step: "\<bar>vs' ! j\<bar> \<le> b + \<bar>amp\<bar>" if "j < n" for j
  proof -
    have "\<bar>sin ((real j / real n) * 2 * pi * freq + phase) * amp\<bar> \<le> 1 * \<bar>amp\<bar>"
      unfolding abs_mult by (rule mult_right_mono) simp_all
    moreover have "\<bar>vs ! j\<bar> \<le> b" using Cons.prems(2) that by simp
    ultimately show ?thesis using that by (simp add: vs'_def)
  qed
  have "\<bar>fst (addHarmonics n off hs (\<lambda>k. g (Suc k)) vs') ! i\<bar>
          \<le> (b + \<bar>amp\<bar>) + sum_list (map (\<lambda>h. \<bar>snd h\<bar>) hs)"
    by (rule Cons.IH [OF len step Cons.prems(3)])
  then show ?case
    by (simp add: h random_def vs'_def phase_def)
qed

lemma generateNoise_length: "length (fst (generateNoise n off g)) = n"
  by (simp add: generateNoise_def addHarmonics_length split: prod.splits)
    (metis addHarmonics_length fst_conv length_replicate)

lemma generateNoise_unit_bound:
  assumes "v \<in> set (fst (generateNoise n off g))"
  shows "\<bar>v\<bar> \<le> 1"
proof -
  define vs where "vs = fst (addHarmonics n off harmonics g (replicate n 0))"
  have len: "length vs = n" by (simp add: vs_def addHarmonics_length)
  have "fst (generateNoise n off g) = map (\<lambda>v. v / totalAmplitude) vs"
    by (simp add: generateNoise_def vs_def split: prod.splits)
  with assms obtain w where w: "w \<in> set vs" and v: "v = w / totalAmplitude"
    by auto
  from w obtain i where i: "i < n" and wi: "w = vs ! i"
    by (auto simp: in_set_conv_nth len)
  have "\<bar>vs ! i\<bar> \<le> 0 + sum_list (map (\<lambda>h. \<bar>snd h\<bar>) harmonics)"
    unfolding vs_def by (rule addHarmonics_bound) (use i in simp_all)
  then have "\<bar>vs ! i\<bar> \<le> 1.875" by (simp add: harmonics_def)
  then show ?thesis by (simp add: v wi totalAmplitude_value)
qed

text \<open>
  Claim C8. Whatever the count, the phase offset and the random draws, every value that
  \<^verbatim>\<open>generateNoise\<close> returns lies in [-1.05, 1.05]; the harmonics have the amplitudes
  1.0, 0.5, 0.25 and 0.125, and the sum is divided by their total, 1.875.
\<close>

theorem generateNoise_range:
  "map snd harmonics = [1.0, 0.5, 0.25, 0.125] \<and> totalAmplitude = 1.875 \<and>
   (\<forall>v \<in> set (fst (generateNoise numPoints phaseOffset g)). - 1.05 \<le> v \<and> v \<le> 1.05)"
proof (intro conjI ballI)
  show "map snd harmonics = [1.0, 0.5, 0.25, 0.125]" by (simp add: harmonics_def)
  show "totalAmplitude = 1.875" by (rule totalAmplitude_value)
next
  fix v assume "v \<in> set (fst (generateNoise numPoints phaseOffset g))"
  then have "\<bar>v\<bar> \<le> 1" by (rule generateNoise_unit_bound)
  then show "- 1.05 \<le> v" and "v \<le> 1.05" by simp_all
qed

text \<open>
  The bound is reached: with every draw equal to 1/4 each phase is a quarter turn, all four
  sines are 1 at index 0, and the normalised value there is exactly 1.
\<close>

theorem generateNoise_range_witness:
  "fst (generateNoise 4 0 (\<lambda>_. 1/4)) ! 0 = 1 \<and>
   - 1.05 \<le> fst (generateNoise 4 0 (\<lambda>_. 1/4)) ! 0 \<and>
   fst (generateNoise 4 0 (\<lambda>_. 1/4)) ! 0 \<le> 1.05"
proof -
  have mem: "fst (generateNoise 4 0 (\<lambda>_. 1/4)) ! 0 \<in> set (fst (generateNoise 4 0 (\<lambda>_. 1/4)))"
    by (rule nth_mem) (simp add: generateNoise_length)
  have val: "fst (generateNoise 4 0 (\<lambda>_. 1/4)) ! 0 = 1"
    by (simp add: generateNoise_def harmonics_def random_def totalAmplitude_value upt_rec)
  from generateNoise_range [of 4 0 "\<lambda>_. 1/4"] mem val show ?thesis
    by blast
qed

section \<open>Contour builder: the two rock rings of \<^verbatim>\<open>generateIsland\<close>\<close>

text \<open>
  \<^verbatim>\<open>Vector3.length\<close>, \<^verbatim>\<open>normalize\<close> (which divides by \<^verbatim>\<open>length() || 1\<close>, so the zero vector
  stays zero), \<^verbatim>\<open>lerp\<close>, \<^verbatim>\<open>add\<close> and \<^verbatim>\<open>multiplyScalar\<close> of three.js.
\<close>

definition length3 :: "vec3 \<Rightarrow> real" where
  "length3 v = sqrt (vx v * vx v + vy v * vy v + vz v * vz v)"

definition multiplyScalar3 :: "vec3 \<Rightarrow> real \<Rightarrow> vec3" where
  "multiplyScalar3 v s = Vec3 (vx v * s) (vy v * s) (vz v * s)"

definition normalize3 :: "vec3 \<Rightarrow> vec3" where
  "normalize3 v = multiplyScalar3 v (1 / (if length3 v = 0 then 1 else length3 v))"

definition add3 :: "vec3 \<Rightarrow> vec3 \<Rightarrow> vec3" where
  "add3 a b = Vec3 (vx a + vx b) (vy a + vy b) (vz a + vz b)"

definition sub3 :: "vec3 \<Rightarrow> vec3 \<Rightarrow> vec3" where
  "sub3 a b = Vec3 (vx a - vx b) (vy a - vy b) (vz a - vz b)"

definition lerp3 :: "vec3 \<Rightarrow> vec3 \<Rightarrow> real \<Rightarrow> vec3" where
  "lerp3 a b alpha =
     Vec3 (vx a + (vx b - vx a) * alpha) (vy a + (vy b - vy a) * alpha)
          (vz a + (vz b - vz a) * alpha)"

text \<open>\<^verbatim>\<open>THREE.MathUtils.lerp(x, y, t) = (1 - t) * x + t * y\<close>\<close>

definition lerp :: "real \<Rightarrow> real \<Rightarrow> real \<Rightarrow> real" where
  "lerp a b t = (1 - t) * a + t * b"

record ContourPoint =
  position :: vec3
  normal :: vec3
  angle :: real

definition irregularity :: real where "irregularity = 0.25"
definition DENSITY_BASE_ROCKS :: real where "DENSITY_BASE_ROCKS = 75"
definition DENSITY_BASE_RADIUS :: real where "DENSITY_BASE_RADIUS = 20"
definition DENSITY_SCALE_POWER :: nat where "DENSITY_SCALE_POWER = 1"
definition OFFSET_IRREGULARITY :: real where "OFFSET_IRREGULARITY = 0.5"

text \<open>
  \<^verbatim>\<open>DENSITY_BASE_ROCKS / Math.pow(DENSITY_BASE_RADIUS, DENSITY_SCALE_POWER)\<close>: the power of
  20 is exact, the quotient is rounded.
\<close>

definition densityCoefficient :: number where
  "densityCoefficient = fl64 (DENSITY_BASE_ROCKS / DENSITY_BASE_RADIUS ^ DENSITY_SCALE_POWER)"

text \<open>
  \<^verbatim>\<open>Math.max(3, Math.round(densityCoefficient * Math.pow(radius, DENSITY_SCALE_POWER)))\<close>,
  in the arithmetic of the program: the product is rounded to a double before
  \<^verbatim>\<open>Math.round\<close> sees it. The radius is what \<^verbatim>\<open>parseFloat\<close> made of the input field, so it
  can be NaN, and then so is the result.
\<close>

definition numRocks :: "number \<Rightarrow> number" where
  "numRocks radius =
     mathMax (Num 3) (mathRound (mulNumber densityCoefficient (mathPow radius DENSITY_SCALE_POWER)))"

text \<open>
  \<^verbatim>\<open>Array.prototype.sort\<close> with the comparator \<^verbatim>\<open>() => Math.random() - 0.5\<close> shuffles the rock
  clones. How often the engine calls the comparator is its own business; the model takes
  the number of calls as an argument and advances the stream by it.
\<close>

definition skipDraws :: "nat \<Rightarrow> rng \<Rightarrow> rng" where
  "skipDraws k g = (\<lambda>n. g (n + k))"

text \<open>One turn of the loop that fills \<^verbatim>\<open>innerContourData\<close>, for a finite base radius.\<close>

definition innerContourPoint :: "real \<Rightarrow> nat \<Rightarrow> real list \<Rightarrow> nat \<Rightarrow> ContourPoint" where
  "innerContourPoint baseRadius numLargeRocks largeNoise i =
     (let a = (real i / real numLargeRocks) * 2 * pi;
          noisyRadius = baseRadius * (1 + largeNoise ! i * irregularity);
          x = cos a * noisyRadius;
          z = sin a * noisyRadius
      in \<lparr>position = Vec3 x 0 z, normal = normalize3 (Vec3 x 0 z), angle = a\<rparr>)"

text \<open>
  One turn of the loop over the small rocks, for a finite base radius and offset: the
  point \<^verbatim>\<open>finalPosition\<close> at which rock \<^verbatim>\<open>i\<close> of the outer ring is placed (the rock's own
  height shift, which depends on its bounding box, is left out).
\<close>

definition smallRockPosition ::
  "real \<Rightarrow> nat \<Rightarrow> nat \<Rightarrow> ContourPoint list \<Rightarrow> real list \<Rightarrow> nat \<Rightarrow> vec3" where
  "smallRockPosition shorelineOffset numLargeRocks numSmallRocks innerContourData smallNoise i =
     (let progress = real i / real numSmallRocks;
          innerIndexFloat = progress * real numLargeRocks;
          index1 = nat \<lfloor>innerIndexFloat\<rfloor>;
          index2 = (index1 + 1) mod numLargeRocks;
          lerpFactor = innerIndexFloat - real index1;
          data1 = innerContourData ! index1;
          data2 = innerContourData ! index2;
          basePosition = lerp3 (position data1) (position data2) lerpFactor;
          baseNormal = normalize3 (lerp3 (normal data1) (normal data2) lerpFactor);
          noisyOffset = shorelineOffset * (1 + smallNoise ! i * OFFSET_IRREGULARITY)
      in add3 basePosition (multiplyScalar3 baseNormal noisyOffset))"

text \<open>
  The contents of the two rings. The coordinates are computed exactly, which needs a
  finite radius and offset. Under a radius of minus infinity the count is 3 and every
  coordinate that the source computes is an infinity or NaN, and so is every coordinate
  derived from such a point or from an offset of minus infinity: such a point is \<open>None\<close>.
\<close>

definition innerContour :: "number \<Rightarrow> nat \<Rightarrow> real list \<Rightarrow> ContourPoint option list" where
  "innerContour baseRadius numLargeRocks largeNoise =
     (case baseRadius of
        Num r \<Rightarrow> map (\<lambda>i. Some (innerContourPoint r numLargeRocks largeNoise i))
                     [0..<numLargeRocks]
      | _ \<Rightarrow> replicate numLargeRocks None)"

definition smallRocks ::
  "number \<Rightarrow> number \<Rightarrow> nat \<Rightarrow> nat \<Rightarrow> real list \<Rightarrow> real list \<Rightarrow> vec3 option list" where
  "smallRocks baseRadius shorelineOffset numLargeRocks numSmallRocks largeNoise smallNoise =
     (case (baseRadius, shorelineOffset) of
        (Num r, Num off) \<Rightarrow>
          map (\<lambda>i. Some (smallRockPosition off numLargeRocks numSmallRocks
                           (map (innerContourPoint r numLargeRocks largeNoise)
                                [0..<numLargeRocks])
                           smallNoise i))
              [0..<numSmallRocks]
      | _ \<Rightarrow> replicate numSmallRocks None)"

text \<open>
  Both rings, in the order the source builds them. Each count is first the length of
  \<^verbatim>\<open>Array.from({ length: count }, ...)\<close>, then, after the shuffle and one draw for the phase,
  the argument of \<^verbatim>\<open>new Array\<close> at the head of \<^verbatim>\<open>generateNoise\<close>; either can throw, which
  ends the run. \<^verbatim>\<open>kLarge\<close> and \<^verbatim>\<open>kSmall\<close> are the numbers of draws the two shuffles take.
\<close>

definition generateRockRings ::
  "number \<Rightarrow> number \<Rightarrow> nat \<Rightarrow> nat \<Rightarrow> rng
   \<Rightarrow> error + (ContourPoint option list \<times> vec3 option list \<times> rng)" where
  "generateRockRings baseRadius shorelineOffset kLarge kSmall g =
     (let numLargeRocks = numRocks baseRadius
      in case arrayFrom numLargeRocks of
           Inl e \<Rightarrow> Inl e
         | Inr clones \<Rightarrow>
             (let g1 = skipDraws kLarge g;
                  (r1, g2) = random g1
              in case arrayCreate numLargeRocks of
                   Inl e \<Rightarrow> Inl e
                 | Inr nLarge \<Rightarrow>
                     (let (largeNoise, g3) = generateNoise nLarge r1 g2;
                          innerContourData = innerContour baseRadius nLarge largeNoise;
                          outerRadius = addNumber baseRadius shorelineOffset;
                          numSmallRocks = numRocks outerRadius
                      in case arrayFrom numSmallRocks of
                           Inl e \<Rightarrow> Inl e
                         | Inr smallClones \<Rightarrow>
                             (let g4 = skipDraws kSmall g3;
                                  (r2, g5) = random g4
                              in case arrayCreate numSmallRocks of
                                   Inl e \<Rightarrow> Inl e
                                 | Inr nSmall \<Rightarrow>
                                     (let (smallNoise, g6) = generateNoise nSmall (r2 + pi) g5
                                      in Inr (innerContourData,
                                              smallRocks baseRadius shorelineOffset nLarge nSmall
                                                largeNoise smallNoise,
                                              g6))))))"

lemma fl64_Num: "round53 x = y \<Longrightarrow> \<bar>y\<bar> < 2 ^ 1024 \<Longrightarrow> fl64 x = Num y"
  by (auto simp: fl64_def Let_def abs_less_iff)

lemma fl64_exact: "round53 x = x \<Longrightarrow> \<bar>x\<bar> < 2 ^ 1024 \<Longrightarrow> fl64 x = Num x"
  by (rule fl64_Num)

lemma densityCoefficient_value: "densityCoefficient = Num (75 / 20)"
proof -
  have "round53 (75 / 20) = 75 / 20" by code_simp
  then have "fl64 (75 / 20) = Num (75 / 20)" by (rule fl64_Num) simp
  then show ?thesis
    by (simp add: densityCoefficient_def DENSITY_BASE_ROCKS_def DENSITY_BASE_RADIUS_def
        DENSITY_SCALE_POWER_def)
qed

lemma numRocks_eq:
  "numRocks radius = mathMax (Num 3) (mathRound (mulNumber (Num (75 / 20)) radius))"
  by (simp add: numRocks_def densityCoefficient_value mathPow_def DENSITY_SCALE_POWER_def)

lemma numRocks_Num:
  assumes "round53 (75 / 20 * r) = p" "\<bar>p\<bar> < 2 ^ 1024"
  shows "numRocks (Num r) = Num (of_int (max 3 \<lfloor>p + 1/2\<rfloor>))"
proof -
  have "mulNumber (Num (75 / 20)) (Num r) = Num p"
    using fl64_Num [OF assms] by (simp add: mulNumber_def)
  then show ?thesis
    by (simp add: numRocks_eq mathRound_def mathMax_def)
qed

lemma numRocks_exact:
  assumes "round53 (75 / 20 * r) = 75 / 20 * r" "\<bar>75 / 20 * r\<bar> < 2 ^ 1024"
  shows "numRocks (Num r) = Num (of_int (max 3 (round (75 / 20 * r))))"
  using numRocks_Num [OF assms] by (simp add: round_def)

lemma arrayCreate_Inr: "arrayCreate a = Inr n \<longleftrightarrow> a = Num (real n) \<and> real n < 2 ^ 32"
proof (cases a)
  case (Num x)
  show ?thesis
  proof
    assume "arrayCreate a = Inr n"
    then have x: "x = of_int \<lfloor>x\<rfloor>" "0 \<le> x" "x < 2 ^ 32" and n: "n = nat \<lfloor>x\<rfloor>"
      by (auto simp: arrayCreate_def Num split: if_splits)
    from x(1,2) n have "real n = x" by (metis of_int_0_le_iff of_nat_nat)
    with x(3) show "a = Num (real n) \<and> real n < 2 ^ 32" by (simp add: Num)
  next
    assume "a = Num (real n) \<and> real n < 2 ^ 32"
    then show "arrayCreate a = Inr n" by (simp add: arrayCreate_def)
  qed
qed (simp_all add: arrayCreate_def)

lemma arrayCreate_error: "arrayCreate a = Inl e \<Longrightarrow> e = RangeError"
  by (auto simp: arrayCreate_def split: number.splits if_splits)

lemma arrayFrom_of_arrayCreate: "arrayCreate a = Inr n \<Longrightarrow> arrayFrom a = Inr n"
proof -
  assume "arrayCreate a = Inr n"
  then have a: "a = Num (real n)" and n: "real n < 2 ^ 32" by (simp_all add: arrayCreate_Inr)
  have "int n < 2 ^ 32" using n by (metis of_int_of_nat_eq of_int_less_numeral_power_cancel_iff)
  then have "min (int n) (2 ^ 53 - 1) = int n" by simp
  then have "toLength a = Num (real n)" by (simp add: toLength_def a)
  then show ?thesis using n by (simp add: arrayFrom_def arrayCreate_def)
qed

lemma arrayFrom_error_of_arrayCreate:
  "arrayFrom a = Inl e \<Longrightarrow> arrayCreate a = Inl RangeError"
  using arrayFrom_of_arrayCreate [of a] arrayCreate_error [of a]
  by (cases "arrayCreate a") auto

lemma length_innerContour: "length (innerContour R n noise) = n"
  by (simp add: innerContour_def split: number.splits)

lemma length_smallRocks: "length (smallRocks R off n m noise1 noise2) = m"
  by (simp add: smallRocks_def split: number.splits)

lemma generateRockRings_built:
  assumes "arrayCreate (numRocks R) = Inr n" "arrayCreate (numRocks (addNumber R off)) = Inr m"
  shows "\<exists>inner outer g'. generateRockRings R off kL kS g = Inr (inner, outer, g') \<and>
           length inner = n \<and> length outer = m"
  by (simp add: generateRockRings_def Let_def case_prod_beta assms
      arrayFrom_of_arrayCreate [OF assms(1)] arrayFrom_of_arrayCreate [OF assms(2)]
      length_innerContour length_smallRocks)

lemma generateRockRings_inner_error:
  assumes "arrayCreate (numRocks R) = Inl e"
  shows "\<exists>e'. generateRockRings R off kL kS g = Inl e'"
  by (cases "arrayFrom (numRocks R)")
    (simp_all add: generateRockRings_def Let_def case_prod_beta assms)

lemma generateRockRings_outer_error:
  assumes "arrayCreate (numRocks R) = Inr n" "arrayCreate (numRocks (addNumber R off)) = Inl e"
  shows "\<exists>e'. generateRockRings R off kL kS g = Inl e'"
  by (cases "arrayFrom (numRocks (addNumber R off))")
    (simp_all add: generateRockRings_def Let_def case_prod_beta assms
      arrayFrom_of_arrayCreate [OF assms(1)])

lemma generateRockRings_Inr:
  assumes "generateRockRings R off kL kS g = Inr (inner, outer, g')"
  shows "arrayCreate (numRocks R) = Inr (length inner) \<and>
         arrayCreate (numRocks (addNumber R off)) = Inr (length outer)"
proof -
  obtain n where n: "arrayCreate (numRocks R) = Inr n"
    using generateRockRings_inner_error [of R _ off kL kS g] assms
    by (cases "arrayCreate (numRocks R)") auto
  obtain m where m: "arrayCreate (numRocks (addNumber R off)) = Inr m"
    using generateRockRings_outer_error [OF n, of off _ kL kS g] assms
    by (cases "arrayCreate (numRocks (addNumber R off))") auto
  from generateRockRings_built [OF n m, of kL kS g] assms show ?thesis
    by (auto simp: n m)
qed

lemma generateRockRings_Inl:
  "(\<exists>e. generateRockRings R off kL kS g = Inl e) \<longleftrightarrow>
   arrayCreate (numRocks R) = Inl RangeError \<or>
   arrayCreate (numRocks (addNumber R off)) = Inl RangeError"
proof
  assume "\<exists>e. generateRockRings R off kL kS g = Inl e"
  then obtain e where e: "generateRockRings R off kL kS g = Inl e" ..
  show "arrayCreate (numRocks R) = Inl RangeError \<or>
        arrayCreate (numRocks (addNumber R off)) = Inl RangeError"
  proof (rule ccontr)
    assume neg: "\<not> ?thesis"
    obtain n where n: "arrayCreate (numRocks R) = Inr n"
      using neg arrayCreate_error [of "numRocks R"]
      by (cases "arrayCreate (numRocks R)") auto
    obtain m where m: "arrayCreate (numRocks (addNumber R off)) = Inr m"
      using neg arrayCreate_error [of "numRocks (addNumber R off)"]
      by (cases "arrayCreate (numRocks (addNumber R off))") auto
    from generateRockRings_built [OF n m, of kL kS g] e show False by auto
  qed
next
  assume "arrayCreate (numRocks R) = Inl RangeError \<or>
          arrayCreate (numRocks (addNumber R off)) = Inl RangeError"
  then show "\<exists>e. generateRockRings R off kL kS g = Inl e"
    using generateRockRings_Inr [of R off kL kS g]
    by (cases "generateRockRings R off kL kS g") auto
qed

text \<open>
  The radii 20, 16.4 and 1.2 as \<^verbatim>\<open>parseFloat\<close> reads them, and the offset 2. At 16.4 the
  product is a double just below 61.5; at 1.2 the exact product is just below 4.5 and is
  rounded up to the double 4.5.
\<close>

lemma parseFloat_examples:
  "fl64 (164 / 10) = Num (2308094809027379 / 2 ^ 47)"
  "fl64 (6 / 5) = Num (5404319552844595 / 2 ^ 52)"
proof -
  have "round53 (164 / 10) = 2308094809027379 / 2 ^ 47" by code_simp
  then show "fl64 (164 / 10) = Num (2308094809027379 / 2 ^ 47)" by (rule fl64_Num) simp
  have "round53 (6 / 5) = 5404319552844595 / 2 ^ 52" by code_simp
  then show "fl64 (6 / 5) = Num (5404319552844595 / 2 ^ 52)" by (rule fl64_Num) simp
qed

lemma numRocks_examples:
  "numRocks (Num 20) = Num 75"
  "numRocks (Num (2308094809027379 / 2 ^ 47)) = Num 61"
  "numRocks (Num (5404319552844595 / 2 ^ 52)) = Num 5"
  "numRocks (addNumber (Num 20) (Num 2)) = Num 83"
proof -
  have "round53 (75 / 20 * 20) = 75" by code_simp
  from numRocks_Num [OF this] show "numRocks (Num 20) = Num 75" by simp
  have "round53 (75 / 20 * (2308094809027379 / 2 ^ 47)) = 8655355533852671 / 2 ^ 47"
    by code_simp
  moreover have "max 3 \<lfloor>(8655355533852671 / 2 ^ 47 :: real) + 1/2\<rfloor> = 61" by code_simp
  ultimately show "numRocks (Num (2308094809027379 / 2 ^ 47)) = Num 61"
    using numRocks_Num [of "2308094809027379 / 2 ^ 47" "8655355533852671 / 2 ^ 47"] by simp
  have "round53 (75 / 20 * (5404319552844595 / 2 ^ 52)) = 9 / 2" by code_simp
  from numRocks_Num [OF this] show "numRocks (Num (5404319552844595 / 2 ^ 52)) = Num 5"
    by simp
  have "round53 (20 + 2) = 22" by code_simp
  then have "addNumber (Num 20) (Num 2) = Num 22"
    using fl64_Num [of "20 + 2" 22] by (simp add: addNumber_def)
  moreover have "round53 (75 / 20 * 22) = 165 / 2" by code_simp
  from numRocks_Num [OF this] have "numRocks (Num 22) = Num 83" by simp
  ultimately show "numRocks (addNumber (Num 20) (Num 2)) = Num 83" by simp
qed

lemma addNumber_zero_example:
  "addNumber (Num (5404319552844595 / 2 ^ 52)) (Num 0) = Num (5404319552844595 / 2 ^ 52)"
proof -
  have "round53 (5404319552844595 / 2 ^ 52 + 0) = 5404319552844595 / 2 ^ 52" by code_simp
  from fl64_Num [OF this] show ?thesis by (simp add: addNumber_def)
qed

text \<open>
  A radius field that does not parse gives the radius NaN. The count is NaN,
  \<^verbatim>\<open>Array.from\<close> makes an empty list of it, and \<^verbatim>\<open>new Array(NaN)\<close> in \<^verbatim>\<open>generateNoise\<close> throws.
\<close>

lemma generateRockRings_NaN: "generateRockRings NaN offset kLarge kSmall g = Inl RangeError"
proof -
  have "numRocks NaN = NaN"
    by (simp add: numRocks_eq mulNumber_def mathRound_def mathMax_def)
  moreover have "arrayFrom NaN = Inr 0" by (simp add: arrayFrom_def toLength_def arrayCreate_def)
  moreover have "arrayCreate NaN = Inl RangeError" by (simp add: arrayCreate_def)
  ultimately show ?thesis
    by (simp add: generateRockRings_def Let_def case_prod_beta)
qed




section \<open>Point in polygon\<close>

text \<open>
  \<^verbatim>\<open>isPointInPolygon\<close>: the crossing-number test on the XZ projection of the polygon. The
  loop runs \<^verbatim>\<open>i\<close> over the vertices with \<^verbatim>\<open>j\<close> the vertex before it (the last one for
  \<^verbatim>\<open>i = 0\<close>). The division is only evaluated when the first conjunct holds, and then
  \<^verbatim>\<open>zj - zi\<close> is not zero.
\<close>

definition intersect :: "vec2 \<Rightarrow> vec3 \<Rightarrow> vec3 \<Rightarrow> bool" where
  "intersect point vi vj =
     (let x = px point; y = py point;
          xi = vx vi; zi = vz vi;
          xj = vx vj; zj = vz vj
      in ((zi > y) \<noteq> (zj > y)) \<and> x < (xj - xi) * (y - zi) / (zj - zi) + xi)"

definition isPointInPolygon :: "vec2 \<Rightarrow> vec3 list \<Rightarrow> bool" where
  "isPointInPolygon point polygon =
     foldl (\<lambda>isInside i.
              let j = (if i = 0 then length polygon - 1 else i - 1)
              in if intersect point (polygon ! i) (polygon ! j) then \<not> isInside else isInside)
           False [0..<length polygon]"

section \<open>Hydrology: lake placement in \<^verbatim>\<open>generateIsland\<close>\<close>

record Lake =
  center :: vec2
  radius :: real
  depth :: real
  waterLevel :: real

text \<open>
  \<^verbatim>\<open>THREE.Box2\<close> grown by \<^verbatim>\<open>expandByPoint\<close> over the XZ projections of the polygon's
  vertices: the componentwise minimum and maximum. The source only reaches this code with
  a polygon of 257 vertices; for the empty polygon the box of three.js is empty
  (\<^verbatim>\<open>min = +Infinity\<close>, \<^verbatim>\<open>max = -Infinity\<close>), every sampled centre is NaN and no lake is
  recorded, which \<^verbatim>\<open>placeLakes\<close> below writes out.
\<close>

record Box2 =
  minX :: real
  minY :: real
  maxX :: real
  maxY :: real

definition expandByPoint :: "Box2 \<Rightarrow> vec3 \<Rightarrow> Box2" where
  "expandByPoint b v =
     \<lparr>minX = min (minX b) (vx v), minY = min (minY b) (vz v),
      maxX = max (maxX b) (vx v), maxY = max (maxY b) (vz v)\<rparr>"

definition sandAreaBox :: "vec3 list \<Rightarrow> Box2" where
  "sandAreaBox polygon =
     foldl expandByPoint
       \<lparr>minX = vx (hd polygon), minY = vz (hd polygon),
        maxX = vx (hd polygon), maxY = vz (hd polygon)\<rparr> (tl polygon)"

text \<open>
  The attempt loop of one lake: at most \<^verbatim>\<open>maxAttempts\<close> centres are drawn, the first one
  that the polygon test accepts is kept.
\<close>

definition maxAttempts :: nat where "maxAttempts = 100"

fun findLakeCenter :: "nat \<Rightarrow> Box2 \<Rightarrow> real \<Rightarrow> vec3 list \<Rightarrow> rng \<Rightarrow> vec2 option \<times> rng" where
  "findLakeCenter 0 box lakeRadius polygon g = (None, g)"
| "findLakeCenter (Suc attempts) box lakeRadius polygon g =
     (let (cx, g1) = randFloat (minX box + lakeRadius) (maxX box - lakeRadius) g;
          (cy, g2) = randFloat (minY box + lakeRadius) (maxY box - lakeRadius) g1;
          randomCenter = Vec2 cx cy
      in if isPointInPolygon randomCenter polygon then (Some randomCenter, g2)
         else findLakeCenter attempts box lakeRadius polygon g2)"

text \<open>
  The terrain parameters the lake code reads. \<^verbatim>\<open>perlin\<close> is the \<^verbatim>\<open>ImprovedNoise.noise\<close>
  function of three.js, which is not part of this repository: it is a parameter.
\<close>

record Terrain =
  perlin :: "real \<Rightarrow> real \<Rightarrow> real \<Rightarrow> real"
  noiseScale :: real
  noiseStrength :: real
  baseHeight :: real

definition noiseHeight :: "Terrain \<Rightarrow> real \<Rightarrow> real \<Rightarrow> real" where
  "noiseHeight t x z =
     baseHeight t + perlin t (x * noiseScale t) (z * noiseScale t) 0 * noiseStrength t"

text \<open>The loop over the requested lakes; a lake with no centre found is skipped.\<close>

fun lakeLoop ::
  "nat \<Rightarrow> Terrain \<Rightarrow> real \<Rightarrow> real \<Rightarrow> Box2 \<Rightarrow> vec3 list \<Rightarrow> rng \<Rightarrow> Lake list \<Rightarrow> Lake list \<times> rng" where
  "lakeLoop 0 t lakeRadius lakeDepth box polygon g lakes = (lakes, g)"
| "lakeLoop (Suc k) t lakeRadius lakeDepth box polygon g lakes =
     (case findLakeCenter maxAttempts box lakeRadius polygon g of
        (None, g') \<Rightarrow> lakeLoop k t lakeRadius lakeDepth box polygon g' lakes
      | (Some lakeCenter, g') \<Rightarrow>
          (let originalCenterHeight = noiseHeight t (px lakeCenter) (py lakeCenter)
           in lakeLoop k t lakeRadius lakeDepth box polygon g'
                (lakes @ [\<lparr>center = lakeCenter, radius = lakeRadius, depth = lakeDepth,
                           waterLevel = originalCenterHeight - lakeDepth + lakeDepth * 0.5\<rparr>])))"

definition placeLakes ::
  "nat \<Rightarrow> Terrain \<Rightarrow> real \<Rightarrow> real \<Rightarrow> vec3 list \<Rightarrow> rng \<Rightarrow> Lake list \<times> rng" where
  "placeLakes numLakes t lakeRadius lakeDepth innerFoliageBoundaryPoints g =
     (if innerFoliageBoundaryPoints = [] then ([], skipDraws (2 * maxAttempts * numLakes) g)
      else lakeLoop numLakes t lakeRadius lakeDepth (sandAreaBox innerFoliageBoundaryPoints)
             innerFoliageBoundaryPoints g [])"

text \<open>The lake's disc, as the square around it, lies in the box.\<close>

definition lakeInBox :: "Box2 \<Rightarrow> Lake \<Rightarrow> bool" where
  "lakeInBox b l =
     (minX b \<le> px (center l) - radius l \<and> px (center l) + radius l \<le> maxX b \<and>
      minY b \<le> py (center l) - radius l \<and> py (center l) + radius l \<le> maxY b)"

text \<open>\<^verbatim>\<open>Math.random()\<close> returns a number in [0, 1).\<close>

definition unitDraws :: "rng \<Rightarrow> bool" where
  "unitDraws g = (\<forall>n. 0 \<le> g n \<and> g n < 1)"

lemma unitDraws_random: "unitDraws g \<Longrightarrow> random g = (r, g') \<Longrightarrow> 0 \<le> r \<and> r < 1 \<and> unitDraws g'"
  by (auto simp: unitDraws_def random_def)

lemma randFloat_between:
  assumes "unitDraws g" "randFloat low high g = (v, g')" "low \<le> high"
  shows "low \<le> v \<and> v \<le> high \<and> unitDraws g'"
proof -
  obtain r where r: "random g = (r, g')" and v: "v = low + r * (high - low)"
    using assms(2) by (auto simp: randFloat_def split: prod.splits)
  from unitDraws_random [OF assms(1) r] have r01: "0 \<le> r" "r < 1" and g': "unitDraws g'"
    by simp_all
  have "0 \<le> r * (high - low)" using r01 assms(3) by simp
  moreover have "r * (high - low) \<le> 1 * (high - low)"
    by (rule mult_right_mono) (use r01 assms(3) in simp_all)
  ultimately show ?thesis using g' by (simp add: v)
qed

lemma randFloat_unitDraws:
  "unitDraws g \<Longrightarrow> randFloat low high g = (v, g') \<Longrightarrow> unitDraws g'"
  by (auto simp: randFloat_def unitDraws_def random_def)

lemma findLakeCenter_inside:
  "findLakeCenter k box r polygon g = (Some c, g') \<Longrightarrow> isPointInPolygon c polygon"
  by (induction k arbitrary: g) (auto simp: Let_def split: prod.splits if_splits)

lemma findLakeCenter_unitDraws:
  "unitDraws g \<Longrightarrow> findLakeCenter k box r polygon g = (res, g') \<Longrightarrow> unitDraws g'"
proof (induction k arbitrary: g)
  case 0
  then show ?case by simp
next
  case (Suc k)
  obtain cx g1 where 1: "randFloat (minX box + r) (maxX box - r) g = (cx, g1)"
    by (cases "randFloat (minX box + r) (maxX box - r) g")
  obtain cy g2 where 2: "randFloat (minY box + r) (maxY box - r) g1 = (cy, g2)"
    by (cases "randFloat (minY box + r) (maxY box - r) g1")
  have u2: "unitDraws g2"
    using randFloat_unitDraws [OF randFloat_unitDraws [OF Suc.prems(1) 1] 2] .
  show ?case
  proof (cases "isPointInPolygon (Vec2 cx cy) polygon")
    case True
    with Suc.prems(2) 1 2 have "g' = g2" by simp
    with u2 show ?thesis by simp
  next
    case False
    with Suc.prems(2) 1 2 have "findLakeCenter k box r polygon g2 = (res, g')" by simp
    from Suc.IH [OF u2 this] show ?thesis .
  qed
qed

lemma findLakeCenter_in_box:
  assumes "unitDraws g" "findLakeCenter k box r polygon g = (Some c, g')"
    and "minX box + r \<le> maxX box - r" "minY box + r \<le> maxY box - r"
  shows "minX box + r \<le> px c \<and> px c \<le> maxX box - r \<and>
         minY box + r \<le> py c \<and> py c \<le> maxY box - r"
  using assms(1,2)
proof (induction k arbitrary: g)
  case 0
  then show ?case by simp
next
  case (Suc k)
  obtain cx g1 where 1: "randFloat (minX box + r) (maxX box - r) g = (cx, g1)"
    by (cases "randFloat (minX box + r) (maxX box - r) g")
  obtain cy g2 where 2: "randFloat (minY box + r) (maxY box - r) g1 = (cy, g2)"
    by (cases "randFloat (minY box + r) (maxY box - r) g1")
  from randFloat_between [OF Suc.prems(1) 1 assms(3)]
  have bx: "minX box + r \<le> cx" "cx \<le> maxX box - r" and u1: "unitDraws g1" by simp_all
  from randFloat_between [OF u1 2 assms(4)]
  have by': "minY box + r \<le> cy" "cy \<le> maxY box - r" and u2: "unitDraws g2" by simp_all
  show ?case
  proof (cases "isPointInPolygon (Vec2 cx cy) polygon")
    case True
    with Suc.prems(2) 1 2 have "c = Vec2 cx cy" by simp
    with bx by' show ?thesis by simp
  next
    case False
    with Suc.prems(2) 1 2 have "findLakeCenter k box r polygon g2 = (Some c, g')" by simp
    from Suc.IH [OF u2 this] show ?thesis .
  qed
qed

lemma lakeLoop_invariant:
  assumes "\<And>c. isPointInPolygon c polygon \<Longrightarrow>
             Q \<lparr>center = c, radius = r, depth = d,
                waterLevel = noiseHeight t (px c) (py c) - d + d * 0.5\<rparr>"
    and "\<forall>l \<in> set lakes. Q l"
    and "lakeLoop k t r d box polygon g lakes = (ls, g')"
  shows "\<forall>l \<in> set ls. Q l"
  using assms(2,3)
proof (induction k arbitrary: g lakes)
  case 0
  then show ?case by simp
next
  case (Suc k)
  obtain res g1 where f: "findLakeCenter maxAttempts box r polygon g = (res, g1)"
    by (cases "findLakeCenter maxAttempts box r polygon g")
  show ?case
  proof (cases res)
    case None
    with Suc.prems(2) f have "lakeLoop k t r d box polygon g1 lakes = (ls, g')" by simp
    from Suc.IH [OF Suc.prems(1) this] show ?thesis .
  next
    case (Some c)
    define l where "l = \<lparr>center = c, radius = r, depth = d,
                waterLevel = noiseHeight t (px c) (py c) - d + d * 0.5\<rparr>"
    from Some f have "isPointInPolygon c polygon" by (simp add: findLakeCenter_inside)
    then have "Q l" unfolding l_def by (rule assms(1))
    with Suc.prems(1) have all: "\<forall>l \<in> set (lakes @ [l]). Q l" by simp
    from Suc.prems(2) f Some have "lakeLoop k t r d box polygon g1 (lakes @ [l]) = (ls, g')"
      by (simp add: l_def)
    from Suc.IH [OF all this] show ?thesis .
  qed
qed

lemma lakeLoop_in_box:
  assumes "minX box + r \<le> maxX box - r" "minY box + r \<le> maxY box - r"
    and "unitDraws g" "\<forall>l \<in> set lakes. lakeInBox box l"
    and "lakeLoop k t r d box polygon g lakes = (ls, g')"
  shows "\<forall>l \<in> set ls. lakeInBox box l"
  using assms(3,4,5)
proof (induction k arbitrary: g lakes)
  case 0
  then show ?case by simp
next
  case (Suc k)
  obtain res g1 where f: "findLakeCenter maxAttempts box r polygon g = (res, g1)"
    by (cases "findLakeCenter maxAttempts box r polygon g")
  have u1: "unitDraws g1" using findLakeCenter_unitDraws [OF Suc.prems(1) f] .
  show ?case
  proof (cases res)
    case None
    with Suc.prems(3) f have "lakeLoop k t r d box polygon g1 lakes = (ls, g')" by simp
    from Suc.IH [OF u1 Suc.prems(2) this] show ?thesis .
  next
    case (Some c)
    define l where "l = \<lparr>center = c, radius = r, depth = d,
                waterLevel = noiseHeight t (px c) (py c) - d + d * 0.5\<rparr>"
    from findLakeCenter_in_box [OF Suc.prems(1) f [unfolded Some] assms(1,2)]
    have "lakeInBox box l" by (simp add: lakeInBox_def l_def)
    with Suc.prems(2) have all: "\<forall>l \<in> set (lakes @ [l]). lakeInBox box l" by simp
    from Suc.prems(3) f Some have "lakeLoop k t r d box polygon g1 (lakes @ [l]) = (ls, g')"
      by (simp add: l_def)
    from Suc.IH [OF u1 all this] show ?thesis .
  qed
qed

text \<open>
  The square sand polygon with corners at (-1, -1) and (1, 1), a lake radius of 2 and
  every draw equal to 1/2: the sampling interval is inverted, the centre (0, 0) passes
  the polygon test, and the lake is recorded with its radius unchanged.
\<close>

definition unitSquare :: "vec3 list" where
  "unitSquare = [Vec3 (- 1) 0 (- 1), Vec3 1 0 (- 1), Vec3 1 0 1, Vec3 (- 1) 0 1]"

definition flatTerrain :: Terrain where
  "flatTerrain = \<lparr>perlin = (\<lambda>x y z. 0), noiseScale = 1, noiseStrength = 1, baseHeight = 3\<rparr>"

lemma findLakeCenter_first:
  assumes "randFloat (minX box + r) (maxX box - r) g = (cx, g1)"
    and "randFloat (minY box + r) (maxY box - r) g1 = (cy, g2)"
    and "isPointInPolygon (Vec2 cx cy) polygon" "0 < k"
  shows "findLakeCenter k box r polygon g = (Some (Vec2 cx cy), g2)"
  using assms by (cases k) simp_all

lemma sandAreaBox_unitSquare:
  "sandAreaBox unitSquare = \<lparr>minX = - 1, minY = - 1, maxX = 1, maxY = 1\<rparr>"
  by (simp add: sandAreaBox_def unitSquare_def expandByPoint_def)

lemma origin_in_unitSquare: "isPointInPolygon (Vec2 0 0) unitSquare"
  by (simp add: isPointInPolygon_def unitSquare_def intersect_def upt_rec)

lemma placeLakes_unitSquare:
  "fst (placeLakes (Suc 0) flatTerrain 2 1 unitSquare (\<lambda>_. 1/2))
     = [\<lparr>center = Vec2 0 0, radius = 2, depth = 1, waterLevel = 2.5\<rparr>]"
proof -
  have "findLakeCenter maxAttempts (sandAreaBox unitSquare) 2 unitSquare (\<lambda>_. 1/2)
          = (Some (Vec2 0 0), \<lambda>_. 1/2)"
    by (rule findLakeCenter_first [where ?g1.0 = "\<lambda>_. 1/2"])
      (simp_all add: randFloat_def random_def sandAreaBox_unitSquare origin_in_unitSquare
        maxAttempts_def)
  moreover have "unitSquare \<noteq> []" by (simp add: unitSquare_def)
  ultimately show ?thesis
    by (simp add: placeLakes_def noiseHeight_def flatTerrain_def)
qed

lemma placeLakes_unitSquare_small:
  "fst (placeLakes (Suc 0) flatTerrain (1/2) 1 unitSquare (\<lambda>_. 1/2))
     = [\<lparr>center = Vec2 0 0, radius = 1/2, depth = 1, waterLevel = 2.5\<rparr>]"
proof -
  have "findLakeCenter maxAttempts (sandAreaBox unitSquare) (1/2) unitSquare (\<lambda>_. 1/2)
          = (Some (Vec2 0 0), \<lambda>_. 1/2)"
    by (rule findLakeCenter_first [where ?g1.0 = "\<lambda>_. 1/2"])
      (simp_all add: randFloat_def random_def sandAreaBox_unitSquare origin_in_unitSquare
        maxAttempts_def)
  moreover have "unitSquare \<noteq> []" by (simp add: unitSquare_def)
  ultimately show ?thesis
    by (simp add: placeLakes_def noiseHeight_def flatTerrain_def)
qed

text \<open>
  A point lies on an edge of the polygon, in the XZ projection: it is collinear with the
  two ends of the edge and lies in the rectangle that they span.
\<close>

definition onSegment :: "vec2 \<Rightarrow> vec3 \<Rightarrow> vec3 \<Rightarrow> bool" where
  "onSegment p a b =
     ((vx b - vx a) * (py p - vz a) - (vz b - vz a) * (px p - vx a) = 0 \<and>
      min (vx a) (vx b) \<le> px p \<and> px p \<le> max (vx a) (vx b) \<and>
      min (vz a) (vz b) \<le> py p \<and> py p \<le> max (vz a) (vz b))"

definition onEdge :: "vec2 \<Rightarrow> vec3 list \<Rightarrow> bool" where
  "onEdge p polygon =
     list_ex (\<lambda>i. onSegment p (polygon ! i) (polygon ! ((i + 1) mod length polygon)))
             [0..<length polygon]"

text \<open>
  The sand polygon with corners at (2, 0), (0, 2), (-2, 0) and (0, -2), a lake radius of
  1/2, and the draws 1/6 and 5/6: the sampled centre is (-1, 1), the midpoint of an edge
  of the polygon, and the crossing test accepts it.
\<close>

definition sandDiamond :: "vec3 list" where
  "sandDiamond = [Vec3 2 0 0, Vec3 0 0 2, Vec3 (- 2) 0 0, Vec3 0 0 (- 2)]"

definition edgeDraws :: rng where
  "edgeDraws = (\<lambda>n. if n = 0 then 1/6 else 5/6)"

lemma sandAreaBox_sandDiamond:
  "sandAreaBox sandDiamond = \<lparr>minX = - 2, minY = - 2, maxX = 2, maxY = 2\<rparr>"
  by (simp add: sandAreaBox_def sandDiamond_def expandByPoint_def)

lemma edge_point_accepted: "isPointInPolygon (Vec2 (- 1) 1) sandDiamond"
  by (simp add: isPointInPolygon_def sandDiamond_def intersect_def upt_rec)

lemma edge_point_onEdge: "onEdge (Vec2 (- 1) 1) sandDiamond"
  by (simp add: onEdge_def sandDiamond_def onSegment_def upt_rec)

lemma placeLakes_sandDiamond:
  "fst (placeLakes (Suc 0) flatTerrain (1/2) 1 sandDiamond edgeDraws)
     = [\<lparr>center = Vec2 (- 1) 1, radius = 1/2, depth = 1, waterLevel = 2.5\<rparr>]"
proof -
  have "findLakeCenter maxAttempts (sandAreaBox sandDiamond) (1/2) sandDiamond edgeDraws
          = (Some (Vec2 (- 1) 1), \<lambda>_. 5/6)"
    by (rule findLakeCenter_first [where ?g1.0 = "\<lambda>_. 5/6"])
      (simp_all add: randFloat_def random_def sandAreaBox_sandDiamond edge_point_accepted
        maxAttempts_def edgeDraws_def)
  moreover have "sandDiamond \<noteq> []" by (simp add: sandDiamond_def)
  ultimately show ?thesis
    by (simp add: placeLakes_def noiseHeight_def flatTerrain_def)
qed




section \<open>Hydrology: \<^verbatim>\<open>traceRiverPath\<close>\<close>

text \<open>
  The terrain is read through a raycast straight down from height 100 above a point of
  the XZ plane; the result is the first hit, if any. The mesh and the raycaster belong to
  three.js, so the query is a parameter: \<^verbatim>\<open>intersects.length > 0\<close> is \<open>Some\<close> of
  \<^verbatim>\<open>intersects[0].point\<close>.
\<close>

type_synonym heightQuery = "real \<Rightarrow> real \<Rightarrow> vec3 option"

text \<open>
  \<^verbatim>\<open>Vector3.applyAxisAngle\<close> for the axis \<^verbatim>\<open>down = (0, -1, 0)\<close>: a rotation in the XZ plane.
\<close>

definition applyAxisAngleDown :: "vec3 \<Rightarrow> real \<Rightarrow> vec3" where
  "applyAxisAngleDown v a =
     Vec3 (vx v * cos a - vz v * sin a) (vy v) (vx v * sin a + vz v * cos a)"

definition distanceTo2 :: "vec2 \<Rightarrow> vec2 \<Rightarrow> real" where
  "distanceTo2 a b = sqrt ((px a - px b) * (px a - px b) + (py a - py b) * (py a - py b))"

definition stepLength :: real where "stepLength = 1.0"
definition maxSteps :: nat where "maxSteps = 200"

text \<open>The sample of the forward arc for \<^verbatim>\<open>j\<close> in -3 .. 3, if the raycast hits.\<close>

definition arcSample :: "heightQuery \<Rightarrow> vec3 \<Rightarrow> vec3 \<Rightarrow> int \<Rightarrow> vec3 option" where
  "arcSample terrain currentPoint currentDirection j =
     (let a = (real_of_int j / 3) * (pi / 3);
          rotatedDir = applyAxisAngleDown currentDirection a;
          samplePos = add3 currentPoint (multiplyScalar3 rotatedDir stepLength)
      in terrain (vx samplePos) (vz samplePos))"

definition samplePoints :: "heightQuery \<Rightarrow> vec3 \<Rightarrow> vec3 \<Rightarrow> vec3 list" where
  "samplePoints terrain currentPoint currentDirection =
     List.map_filter (arcSample terrain currentPoint currentDirection) [- 3 .. 3]"

text \<open>\<^verbatim>\<open>lakes.some(...)\<close>: the walk has flowed into a lake.\<close>

definition inLake :: "Lake list \<Rightarrow> vec3 \<Rightarrow> bool" where
  "inLake lakes p =
     list_ex (\<lambda>lake. vy p < waterLevel lake \<and>
                      distanceTo2 (Vec2 (vx p) (vz p)) (center lake) < radius lake) lakes"

text \<open>
  The body of the \<^verbatim>\<open>for\<close> loop, with the number of turns left as the first argument.
  \<^verbatim>\<open>samplePoints.sort\<close> by ascending elevation is a stable sort, as \<^const>\<open>sort_key\<close> is;
  each \<^verbatim>\<open>break\<close> returns the path built so far.
\<close>

fun riverSteps ::
  "nat \<Rightarrow> heightQuery \<Rightarrow> Lake list \<Rightarrow> vec3 \<Rightarrow> vec3 \<Rightarrow> vec3 list \<Rightarrow> vec3 list" where
  "riverSteps 0 terrain lakes currentPoint currentDirection path = path"
| "riverSteps (Suc n) terrain lakes currentPoint currentDirection path =
     (let samples = samplePoints terrain currentPoint currentDirection
      in if samples = [] then path
         else let nextPoint = hd (sort_key vy samples)
              in if vy nextPoint \<ge> vy currentPoint then path
                 else let path' = path @ [nextPoint]
                      in if inLake lakes nextPoint then path'
                         else riverSteps n terrain lakes nextPoint
                                (normalize3 (sub3 nextPoint currentPoint)) path')"

definition traceRiverPath :: "vec3 \<Rightarrow> heightQuery \<Rightarrow> Lake list \<Rightarrow> rng \<Rightarrow> vec3 list \<times> rng" where
  "traceRiverPath startPoint terrain lakes g =
     (let (r1, g1) = random g;
          (r2, g2) = random g1;
          currentDirection = normalize3 (Vec3 (r1 - 0.5) 0 (r2 - 0.5))
      in (riverSteps maxSteps terrain lakes startPoint currentDirection [startPoint], g2))"

lemma riverSteps_descends:
  "path \<noteq> [] \<Longrightarrow> last path = cur \<Longrightarrow> sorted_wrt (\<lambda>a b. vy b < vy a) path \<Longrightarrow>
   sorted_wrt (\<lambda>a b. vy b < vy a) (riverSteps n terrain lakes cur dir path)"
proof (induction n arbitrary: cur dir path)
  case 0
  then show ?case by simp
next
  case (Suc n)
  define nxt where "nxt = hd (sort_key vy (samplePoints terrain cur dir))"
  have ext: "sorted_wrt (\<lambda>a b. vy b < vy a) (path @ [nxt])" if low: "vy nxt < vy cur"
  proof -
    have "vy nxt < vy a" if "a \<in> set path" for a
    proof (cases "a = last path")
      case True
      with low Suc.prems(2) show ?thesis by simp
    next
      case False
      with that Suc.prems(1) have "a \<in> set (butlast path)"
        by (metis append_butlast_last_id in_set_conv_decomp_first list.distinct(1)
            rotate1.simps(2) set_ConsD set_rotate1)
      moreover have "sorted_wrt (\<lambda>a b. vy b < vy a) (butlast path @ [last path])"
        using Suc.prems(1,3) by simp
      ultimately have "vy (last path) < vy a"
        by (simp add: sorted_wrt_append)
      with low Suc.prems(2) show ?thesis by simp
    qed
    with Suc.prems(3) show ?thesis by (simp add: sorted_wrt_append)
  qed
  have rec: "sorted_wrt (\<lambda>a b. vy b < vy a)
               (riverSteps n terrain lakes nxt (normalize3 (sub3 nxt cur)) (path @ [nxt]))"
    if "vy nxt < vy cur"
    by (rule Suc.IH) (use ext [OF that] in simp_all)
  show ?case
    using Suc.prems(3) ext rec
    by (simp add: Let_def nxt_def [symmetric] not_le)
qed

lemma riverSteps_prefix: "\<exists>rest. riverSteps n terrain lakes cur dir path = path @ rest"
proof (induction n arbitrary: cur dir path)
  case 0
  then show ?case by simp
next
  case (Suc n)
  define nxt where "nxt = hd (sort_key vy (samplePoints terrain cur dir))"
  from Suc.IH [of nxt "normalize3 (sub3 nxt cur)" "path @ [nxt]"]
  obtain rest where
    "riverSteps n terrain lakes nxt (normalize3 (sub3 nxt cur)) (path @ [nxt])
       = path @ [nxt] @ rest" by auto
  then show ?case
    by (auto simp: Let_def nxt_def [symmetric])
qed

text \<open>
  Claim C10. Every path that \<^verbatim>\<open>traceRiverPath\<close> returns starts at the start point and its
  heights are strictly decreasing: each point is strictly lower than every point before
  it, in particular than its predecessor.
\<close>

theorem traceRiverPath_descends:
  "hd (fst (traceRiverPath startPoint terrain lakes g)) = startPoint \<and>
   fst (traceRiverPath startPoint terrain lakes g) \<noteq> [] \<and>
   sorted_wrt (\<lambda>a b. vy b < vy a) (fst (traceRiverPath startPoint terrain lakes g))"
proof -
  obtain dir where p: "fst (traceRiverPath startPoint terrain lakes g)
      = riverSteps maxSteps terrain lakes startPoint dir [startPoint]"
    by (auto simp: traceRiverPath_def random_def Let_def)
  from riverSteps_prefix [of maxSteps terrain lakes startPoint dir "[startPoint]"]
  have "hd (riverSteps maxSteps terrain lakes startPoint dir [startPoint]) = startPoint"
    and "riverSteps maxSteps terrain lakes startPoint dir [startPoint] \<noteq> []"
    by auto
  moreover have "sorted_wrt (\<lambda>a b. vy b < vy a)
      (riverSteps maxSteps terrain lakes startPoint dir [startPoint])"
    by (rule riverSteps_descends) simp_all
  ultimately show ?thesis by (simp add: p)
qed

text \<open>
  A walk that moves: over a terrain whose every raycast hits the origin, the path from a
  point of height 1 goes down to the origin and stops there.
\<close>

lemma traceRiverPath_example:
  "fst (traceRiverPath (Vec3 0 1 0) (\<lambda>x z. Some (Vec3 0 0 0)) [] (\<lambda>_. 0))
     = [Vec3 0 1 0, Vec3 0 0 0]"
  by (simp add: traceRiverPath_def random_def maxSteps_def numeral_eq_Suc samplePoints_def
      arcSample_def List.map_filter_simps upto_rec1 inLake_def)

section \<open>Placement sampler: \<^verbatim>\<open>placeFoliageOnMesh\<close>\<close>

text \<open>
  \<^verbatim>\<open>Vector3.cross\<close>, \<^verbatim>\<open>THREE.Triangle.getNormal\<close> (the normalised cross product of
  \<^verbatim>\<open>c - b\<close> and \<^verbatim>\<open>a - b\<close>, or the zero vector for a degenerate triangle),
  \<^verbatim>\<open>Triangle.getArea\<close> and \<^verbatim>\<open>MathUtils.degToRad\<close> of three.js.
\<close>

definition cross3 :: "vec3 \<Rightarrow> vec3 \<Rightarrow> vec3" where
  "cross3 a b =
     Vec3 (vy a * vz b - vz a * vy b) (vz a * vx b - vx a * vz b) (vx a * vy b - vy a * vx b)"

definition lengthSq3 :: "vec3 \<Rightarrow> real" where
  "lengthSq3 v = vx v * vx v + vy v * vy v + vz v * vz v"

definition getNormal :: "vec3 \<Rightarrow> vec3 \<Rightarrow> vec3 \<Rightarrow> vec3" where
  "getNormal a b c =
     (let target = cross3 (sub3 c b) (sub3 a b);
          targetLengthSq = lengthSq3 target
      in if targetLengthSq > 0 then multiplyScalar3 target (1 / sqrt targetLengthSq)
         else Vec3 0 0 0)"

definition getArea :: "vec3 \<Rightarrow> vec3 \<Rightarrow> vec3 \<Rightarrow> real" where
  "getArea a b c = length3 (cross3 (sub3 c b) (sub3 a b)) * 0.5"

definition degToRad :: "real \<Rightarrow> real" where
  "degToRad degrees = degrees * (pi / 180)"

text \<open>
  An entry of \<^verbatim>\<open>validFaces\<close>. Its field \<^verbatim>\<open>normal\<close> is called \<open>faceNormal\<close> here, after the
  variable it is copied from (the name \<open>normal\<close> is a field of \<^typ>\<open>ContourPoint\<close>).
\<close>

record Face =
  vA :: vec3
  vB :: vec3
  vC :: vec3
  faceNormal :: vec3
  area :: real

text \<open>
  The four tests of the face loop, in the source's order; each \<^verbatim>\<open>continue\<close> is a
  \<open>False\<close>.
\<close>

definition centroid2D :: "vec3 \<Rightarrow> vec3 \<Rightarrow> vec3 \<Rightarrow> vec2" where
  "centroid2D a b c =
     (let centroid = multiplyScalar3 (add3 (add3 a b) c) (1 / 3)
      in Vec2 (vx centroid) (vz centroid))"

definition acceptFace :: "real \<Rightarrow> vec3 list \<Rightarrow> vec3 list \<Rightarrow> vec3 \<Rightarrow> vec3 \<Rightarrow> vec3 \<Rightarrow> bool" where
  "acceptFace slopeThreshold outerBoundary innerBoundary a b c =
     (if vy (getNormal a b c) < slopeThreshold then False
      else if vy a \<le> 0 \<and> vy b \<le> 0 \<and> vy c \<le> 0 then False
      else if \<not> isPointInPolygon (centroid2D a b c) outerBoundary then False
      else if isPointInPolygon (centroid2D a b c) innerBoundary then False
      else True)"

text \<open>
  The loop over the index buffer, three indices at a time, with \<^verbatim>\<open>validFaces\<close> and
  \<^verbatim>\<open>totalArea\<close> as the state; \<^verbatim>\<open>totalArea += area\<close> is a double-precision sum. An index
  outside the position buffer (or a missing index at the end of a buffer whose length is
  not a multiple of three) reads \<^verbatim>\<open>undefined\<close>, the vertex is NaN and the face fails the
  polygon test: such a face is skipped.
\<close>

fun faceLoop ::
  "real \<Rightarrow> vec3 list \<Rightarrow> vec3 list \<Rightarrow> vec3 list \<Rightarrow> nat list \<Rightarrow> Face list \<times> real
   \<Rightarrow> Face list \<times> real" where
  "faceLoop slopeThreshold outerBoundary innerBoundary positions (iA # iB # iC # rest)
            (validFaces, totalArea) =
     (if iA < length positions \<and> iB < length positions \<and> iC < length positions \<and>
         acceptFace slopeThreshold outerBoundary innerBoundary
           (positions ! iA) (positions ! iB) (positions ! iC)
      then (let a = positions ! iA; b = positions ! iB; c = positions ! iC;
                ar = getArea a b c
            in faceLoop slopeThreshold outerBoundary innerBoundary positions rest
                 (validFaces @ [\<lparr>vA = a, vB = b, vC = c, faceNormal = getNormal a b c,
                                  area = ar\<rparr>],
                  round53 (totalArea + ar)))
      else faceLoop slopeThreshold outerBoundary innerBoundary positions rest
             (validFaces, totalArea))"
| "faceLoop slopeThreshold outerBoundary innerBoundary positions indices acc = acc"

text \<open>
  The cumulative-area table: entries \<^verbatim>\<open>{faceIndex, cumulativeArea}\<close>, with
  \<^verbatim>\<open>cumulativeArea += validFaces[i].area\<close> the same double-precision sum.
\<close>

fun cdfLoop :: "Face list \<Rightarrow> nat \<Rightarrow> real \<Rightarrow> (nat \<times> real) list" where
  "cdfLoop [] i cumulativeArea = []"
| "cdfLoop (f # fs) i cumulativeArea =
     (i, round53 (cumulativeArea + area f))
     # cdfLoop fs (Suc i) (round53 (cumulativeArea + area f))"

text \<open>
  \<^verbatim>\<open>numInstances\<close>: \<^verbatim>\<open>Math.floor(totalArea / 100 * grassDensity)\<close>, then the cap. The quotient
  and the product are each rounded to a double, and the product can overflow to an
  infinity. \<^verbatim>\<open>grassDensity\<close> is what \<^verbatim>\<open>parseFloat\<close> made of the density field, so it can be
  NaN or an infinity. \<^verbatim>\<open>maxCount\<close> is the result of \<^verbatim>\<open>parseInt\<close> on the cap field: \<open>None\<close> for
  an empty field and for one that does not parse (and for digits so many that \<^verbatim>\<open>parseInt\<close>
  gives \<^verbatim>\<open>Infinity\<close>, since the minimum with \<^verbatim>\<open>Infinity\<close> changes nothing).
\<close>

definition numInstances :: "real \<Rightarrow> number \<Rightarrow> int option \<Rightarrow> number" where
  "numInstances totalArea grassDensity maxCount =
     (let n = mathFloor (mulNumber (fl64 (totalArea / 100)) grassDensity)
      in case maxCount of
           None \<Rightarrow> n
         | Some m \<Rightarrow> if m \<ge> 0 then mathMin n (Num (of_int m)) else n)"

text \<open>
  A placed instance: the prototype, the face it was sampled from, the sampled point, the
  yaw about the up axis and the scale. The source composes them into a matrix (the
  position is the point raised by \<^verbatim>\<open>FOLIAGE_Y_OFFSET\<close>, the rotation aligns up with the
  face normal and then applies the yaw); the model keeps the components.
\<close>

record 'm Instance =
  sourceFoliage :: 'm
  faceData :: Face
  point :: vec3
  yaw :: real
  finalScale :: real

definition FOLIAGE_Y_OFFSET :: real where "FOLIAGE_Y_OFFSET = 0.02"

definition instancePosition :: "'m Instance \<Rightarrow> vec3" where
  "instancePosition inst =
     Vec3 (vx (point inst)) (vy (point inst) + FOLIAGE_Y_OFFSET) (vz (point inst))"

definition barycentric :: "Face \<Rightarrow> real \<Rightarrow> real \<Rightarrow> vec3" where
  "barycentric f u0 v0 =
     (let (u, v) = (if u0 + v0 > 1 then (1 - u0, 1 - v0) else (u0, v0));
          w = 1 - u - v
      in add3 (add3 (multiplyScalar3 (vA f) u) (multiplyScalar3 (vB f) v))
              (multiplyScalar3 (vC f) w))"

text \<open>
  The instance loop, with the number of turns left as the first argument. The area sample
  \<^verbatim>\<open>Math.random() * totalArea\<close> is a double-precision product, which the table entries are
  compared with; a turn whose area sample finds no table entry is skipped after one draw.
  The prototype is read at \<^verbatim>\<open>Math.floor(Math.random() * models.length)\<close>; an index outside
  the list reads \<^verbatim>\<open>undefined\<close>, for which \<^verbatim>\<open>transformsByModel.get(...)?.push\<close> does nothing.
\<close>

fun instanceLoop ::
  "nat \<Rightarrow> 'm list \<Rightarrow> Face list \<Rightarrow> (nat \<times> real) list \<Rightarrow> real \<Rightarrow> real \<Rightarrow> rng
   \<Rightarrow> 'm Instance list \<Rightarrow> 'm Instance list \<times> rng" where
  "instanceLoop 0 models validFaces cdf totalArea baseFoliageScale g acc = (acc, g)"
| "instanceLoop (Suc n) models validFaces cdf totalArea baseFoliageScale g acc =
     (let (r, g1) = random g;
          randomArea = round53 (r * totalArea)
      in case List.find (\<lambda>item. snd item \<ge> randomArea) cdf of
           None \<Rightarrow> instanceLoop n models validFaces cdf totalArea baseFoliageScale g1 acc
         | Some foundCdf \<Rightarrow>
             (let f = validFaces ! fst foundCdf;
                  (u0, g2) = random g1;
                  (v0, g3) = random g2;
                  p = barycentric f u0 v0
              in if models \<noteq> [] then
                   (let (rm, g4) = random g3;
                        k = nat \<lfloor>rm * real (length models)\<rfloor>;
                        (ry, g5) = random g4;
                        (randomVariation, g6) = randFloat 0.8 1.2 g5
                    in instanceLoop n models validFaces cdf totalArea baseFoliageScale g6
                         (if k < length models
                          then acc @ [\<lparr>sourceFoliage = models ! k, faceData = f, point = p,
                                        yaw = ry * pi * 2,
                                        finalScale = baseFoliageScale * randomVariation\<rparr>]
                          else acc))
                 else instanceLoop n models validFaces cdf totalArea baseFoliageScale g3 acc))"

definition collectFaces ::
  "real \<Rightarrow> vec3 list \<Rightarrow> vec3 list \<Rightarrow> vec3 list \<Rightarrow> nat list \<Rightarrow> Face list \<times> real" where
  "collectFaces maxSlopeDegrees outerBoundary innerBoundary positions indices =
     faceLoop (cos (degToRad maxSlopeDegrees)) outerBoundary innerBoundary positions indices
       ([], 0)"

text \<open>
  The options of a run. The mesh is its position buffer and its index buffer (\<open>None\<close> for a
  non-indexed mesh, which is refused).
\<close>

record 'm PlaceFoliageOptions =
  positions :: "vec3 list"
  index :: "nat list option"
  models :: "'m list"
  density :: number
  maxCount :: "int option"
  maxSlope :: real
  scale :: real
  outerBoundary :: "vec3 list"
  innerBoundary :: "vec3 list"

text \<open>
  The second half of the function, from \<^verbatim>\<open>numInstances\<close> on, on the faces and the total
  area that the face loop has left. It returns early when the count is zero or there is
  no face; under a count of \<^verbatim>\<open>+Infinity\<close> its loop does not end, which is \<open>None\<close>.
\<close>

definition placeInstances ::
  "'m PlaceFoliageOptions \<Rightarrow> Face list \<Rightarrow> real \<Rightarrow> rng \<Rightarrow> ('m Instance list \<times> rng) option" where
  "placeInstances options validFaces totalArea g =
     (let n = numInstances totalArea (density options) (maxCount options)
      in if n = Num 0 \<or> validFaces = [] then Some ([], g)
         else case loopTurns n of
                None \<Rightarrow> None
              | Some turns \<Rightarrow>
                  Some (instanceLoop turns (models options) validFaces (cdfLoop validFaces 0 0)
                          totalArea (scale options) g []))"

text \<open>
  The whole function: the list of the instances that it hands to the scene. The list is
  empty when the function returns early, and when the instance loop does not end, since
  the meshes are only built after the loop.
\<close>

definition placeFoliageOnMesh :: "'m PlaceFoliageOptions \<Rightarrow> rng \<Rightarrow> 'm Instance list \<times> rng" where
  "placeFoliageOnMesh options g =
     (case index options of
        None \<Rightarrow> ([], g)
      | Some indices \<Rightarrow>
          (let (validFaces, totalArea) =
                 collectFaces (maxSlope options) (outerBoundary options) (innerBoundary options)
                   (positions options) indices
           in case placeInstances options validFaces totalArea g of
                None \<Rightarrow> ([], g)
              | Some result \<Rightarrow> result))"

text \<open>
  \<^verbatim>\<open>totalValidArea\<close>: the value of \<^verbatim>\<open>totalArea\<close> after the face loop, which is the
  double-precision sum of the areas of the accepted faces, taken in their order.
\<close>

definition accumulatedArea :: "Face list \<Rightarrow> real" where
  "accumulatedArea faces = foldl (\<lambda>total f. round53 (total + area f)) 0 faces"

definition totalValidArea :: "'m PlaceFoliageOptions \<Rightarrow> real" where
  "totalValidArea options =
     (case index options of
        None \<Rightarrow> 0
      | Some indices \<Rightarrow>
          snd (collectFaces (maxSlope options) (outerBoundary options) (innerBoundary options)
                 (positions options) indices))"

text \<open>The four acceptance tests, as the claim words them, on a stored face.\<close>

definition passesTests :: "'m PlaceFoliageOptions \<Rightarrow> Face \<Rightarrow> bool" where
  "passesTests options f =
     (vy (getNormal (vA f) (vB f) (vC f)) \<ge> cos (degToRad (maxSlope options)) \<and>
      \<not> (vy (vA f) \<le> 0 \<and> vy (vB f) \<le> 0 \<and> vy (vC f) \<le> 0) \<and>
      isPointInPolygon (centroid2D (vA f) (vB f) (vC f)) (outerBoundary options) \<and>
      \<not> isPointInPolygon (centroid2D (vA f) (vB f) (vC f)) (innerBoundary options))"

lemma getArea_nonneg: "0 \<le> getArea a b c"
  by (simp add: getArea_def length3_def)

lemma faceLoop_invariant:
  "(\<And>a b c. acceptFace thr outer inner a b c \<Longrightarrow>
      Q \<lparr>vA = a, vB = b, vC = c, faceNormal = getNormal a b c, area = getArea a b c\<rparr>) \<Longrightarrow>
   \<forall>f \<in> set vf. Q f \<Longrightarrow> faceLoop thr outer inner ps idx (vf, ta) = (vf', ta') \<Longrightarrow>
   \<forall>f \<in> set vf'. Q f"
proof (induction thr outer inner ps idx "(vf, ta)" arbitrary: vf ta
    rule: faceLoop.induct)
  case (1 thr outer inner ps iA iB iC rest vf ta)
  show ?case
  proof (cases "iA < length ps \<and> iB < length ps \<and> iC < length ps \<and>
         acceptFace thr outer inner (ps ! iA) (ps ! iB) (ps ! iC)")
    case True
    let ?f = "\<lparr>vA = ps ! iA, vB = ps ! iB, vC = ps ! iC,
               faceNormal = getNormal (ps ! iA) (ps ! iB) (ps ! iC),
               area = getArea (ps ! iA) (ps ! iB) (ps ! iC)\<rparr>"
    from True have "Q ?f" by (intro "1.prems"(1)) simp
    with "1.prems"(2) have all: "\<forall>f \<in> set (vf @ [?f]). Q f" by simp
    from True "1.prems"(3) have
      "faceLoop thr outer inner ps rest
         (vf @ [?f], round53 (ta + getArea (ps ! iA) (ps ! iB) (ps ! iC))) = (vf', ta')"
      by (simp add: Let_def)
    from "1.hyps"(1) [OF True refl refl refl refl "1.prems"(1) all this]
    show ?thesis by simp
  next
    case False
    with "1.prems"(3) have "faceLoop thr outer inner ps rest (vf, ta) = (vf', ta')"
      by auto
    from "1.hyps"(2) [OF False "1.prems"(1,2) this] show ?thesis by simp
  qed
qed simp_all

lemma accumulatedArea_snoc:
  "accumulatedArea (fs @ [f]) = round53 (accumulatedArea fs + area f)"
  by (simp add: accumulatedArea_def)

lemma faceLoop_total:
  "ta = accumulatedArea vf \<Longrightarrow> faceLoop thr outer inner ps idx (vf, ta) = (vf', ta') \<Longrightarrow>
   ta' = accumulatedArea vf'"
proof (induction thr outer inner ps idx "(vf, ta)" arbitrary: vf ta
    rule: faceLoop.induct)
  case (1 thr outer inner ps iA iB iC rest vf ta)
  show ?case
  proof (cases "iA < length ps \<and> iB < length ps \<and> iC < length ps \<and>
         acceptFace thr outer inner (ps ! iA) (ps ! iB) (ps ! iC)")
    case True
    let ?f = "\<lparr>vA = ps ! iA, vB = ps ! iB, vC = ps ! iC,
               faceNormal = getNormal (ps ! iA) (ps ! iB) (ps ! iC),
               area = getArea (ps ! iA) (ps ! iB) (ps ! iC)\<rparr>"
    have sum: "round53 (ta + getArea (ps ! iA) (ps ! iB) (ps ! iC)) = accumulatedArea (vf @ [?f])"
      using "1.prems"(1) by (simp add: accumulatedArea_snoc)
    from True "1.prems"(2) have
      "faceLoop thr outer inner ps rest
         (vf @ [?f], round53 (ta + getArea (ps ! iA) (ps ! iB) (ps ! iC))) = (vf', ta')"
      by (simp add: Let_def)
    from "1.hyps"(1) [OF True refl refl refl refl sum this]
    show ?thesis by simp
  next
    case False
    with "1.prems"(2) have "faceLoop thr outer inner ps rest (vf, ta) = (vf', ta')"
      by auto
    from "1.hyps"(2) [OF False "1.prems"(1) this] show ?thesis by simp
  qed
qed simp_all

lemma collectFaces_accepted:
  assumes "collectFaces slope outer inner ps idx = (vf, ta)" "f \<in> set vf"
  shows "acceptFace (cos (degToRad slope)) outer inner (vA f) (vB f) (vC f) \<and> 0 \<le> area f"
proof -
  have "\<forall>f \<in> set vf. acceptFace (cos (degToRad slope)) outer inner (vA f) (vB f) (vC f)
                      \<and> 0 \<le> area f"
    by (rule faceLoop_invariant [OF _ _ assms(1) [unfolded collectFaces_def]])
      (simp_all add: getArea_nonneg)
  with assms(2) show ?thesis by blast
qed

lemma collectFaces_total:
  "collectFaces slope outer inner ps idx = (vf, ta) \<Longrightarrow> ta = accumulatedArea vf"
  unfolding collectFaces_def by (rule faceLoop_total [of 0 "[]"]) (simp_all add: accumulatedArea_def)

lemma cdfLoop_indices: "it \<in> set (cdfLoop fs i c) \<Longrightarrow> i \<le> fst it \<and> fst it < i + length fs"
  by (induction fs arbitrary: i c) fastforce+

text \<open>The last entry of the table holds the total, so a sample up to the total finds an entry.\<close>

lemma cdfLoop_find:
  "fs \<noteq> [] \<Longrightarrow> x \<le> foldl (\<lambda>total f. round53 (total + area f)) c fs \<Longrightarrow>
   List.find (\<lambda>it. snd it \<ge> x) (cdfLoop fs i c) \<noteq> None"
proof (induction fs arbitrary: i c)
  case Nil
  then show ?case by simp
next
  case (Cons f fs)
  show ?case
  proof (cases "fs = []")
    case True
    with Cons.prems show ?thesis by simp
  next
    case False
    have "List.find (\<lambda>it. snd it \<ge> x) (cdfLoop fs (Suc i) (round53 (c + area f))) \<noteq> None"
      by (rule Cons.IH [OF False]) (use Cons.prems in simp)
    then show ?thesis by simp
  qed
qed

lemma accumulatedArea_nonneg:
  "\<forall>f \<in> set fs. 0 \<le> area f \<Longrightarrow> 0 \<le> accumulatedArea fs"
proof (induction fs rule: rev_induct)
  case Nil
  then show ?case by (simp add: accumulatedArea_def)
next
  case (snoc f fs)
  then have "0 \<le> accumulatedArea fs + area f" by simp
  then show ?case unfolding accumulatedArea_snoc by (rule round53_nonneg)
qed

lemma sample_below_total:
  assumes "fs \<noteq> []" "\<forall>f \<in> set fs. 0 \<le> area f" "0 \<le> r" "r < 1"
  shows "round53 (r * accumulatedArea fs) \<le> accumulatedArea fs"
proof -
  obtain gs f where fs: "fs = gs @ [f]" using assms(1) by (cases fs rule: rev_cases) auto
  have total: "accumulatedArea fs = round53 (accumulatedArea gs + area f)"
    by (simp only: fs accumulatedArea_snoc)
  have "0 \<le> accumulatedArea fs" using assms(2) by (rule accumulatedArea_nonneg)
  then have "r * accumulatedArea fs \<le> 1 * accumulatedArea fs"
    using assms(4) by (intro mult_right_mono) simp_all
  then have "r * accumulatedArea fs \<le> round53 (accumulatedArea gs + area f)"
    by (simp add: total)
  from round53_le_double [OF this] show ?thesis by (simp add: total)
qed

lemma unitDraws_shift: "unitDraws g \<Longrightarrow> unitDraws (\<lambda>n. g (Suc n))"
  by (simp add: unitDraws_def)

lemma unitDraws_0: "unitDraws g \<Longrightarrow> 0 \<le> g 0 \<and> g 0 < 1"
  by (simp add: unitDraws_def)

lemma floor_index_in_range:
  assumes "0 \<le> r" "r < 1" "0 < n"
  shows "nat \<lfloor>r * real n\<rfloor> < n"
proof -
  have "r * real n < 1 * real n"
    by (rule mult_strict_right_mono) (use assms in simp_all)
  then have "\<lfloor>r * real n\<rfloor> < int n" by (simp add: floor_less_iff)
  moreover have "0 \<le> \<lfloor>r * real n\<rfloor>" using assms by simp
  ultimately show ?thesis by (simp add: nat_less_iff)
qed

lemma instanceLoop_faces:
  assumes "\<forall>it \<in> set cdf. fst it < length vf"
  shows "\<forall>inst \<in> set acc. faceData inst \<in> set vf \<Longrightarrow>
         instanceLoop n ms vf cdf ta sc g acc = (res, g') \<Longrightarrow>
         \<forall>inst \<in> set res. faceData inst \<in> set vf"
proof (induction n arbitrary: g acc)
  case 0
  then show ?case by simp
next
  case (Suc n)
  show ?case
  proof (cases "List.find (\<lambda>it. snd it \<ge> round53 (g 0 * ta)) cdf")
    case None
    with Suc.prems(2) have
      "instanceLoop n ms vf cdf ta sc (\<lambda>n. g (Suc n)) acc = (res, g')"
      by (simp add: random_def)
    from Suc.IH [OF Suc.prems(1) this] show ?thesis .
  next
    case (Some it)
    then have "it \<in> set cdf" by (auto simp: find_Some_iff)
    with assms have mem: "vf ! fst it \<in> set vf" by simp
    from Suc.prems(2) Some obtain acc' g1 where
      rec: "instanceLoop n ms vf cdf ta sc g1 acc' = (res, g')"
      and acc': "acc' = acc \<or> (\<exists>inst. acc' = acc @ [inst] \<and> faceData inst = vf ! fst it)"
      by (auto simp: random_def randFloat_def Let_def split: if_splits)
    from acc' mem Suc.prems(1) have "\<forall>inst \<in> set acc'. faceData inst \<in> set vf" by auto
    from Suc.IH [OF this rec] show ?thesis .
  qed
qed

lemma instanceLoop_length:
  assumes "ms \<noteq> []"
    and "\<And>r. 0 \<le> r \<Longrightarrow> r < 1 \<Longrightarrow> List.find (\<lambda>it. snd it \<ge> round53 (r * ta)) cdf \<noteq> None"
  shows "unitDraws g \<Longrightarrow> instanceLoop n ms vf cdf ta sc g acc = (res, g') \<Longrightarrow>
         length res = length acc + n"
proof (induction n arbitrary: g acc)
  case 0
  then show ?case by simp
next
  case (Suc n)
  from unitDraws_0 [OF Suc.prems(1)] assms(2)
  obtain it where it: "List.find (\<lambda>it. snd it \<ge> round53 (g 0 * ta)) cdf = Some it" by blast
  let ?g3 = "\<lambda>n. g (Suc (Suc (Suc n)))"
  let ?g6 = "\<lambda>n. g (Suc (Suc (Suc (Suc (Suc (Suc n))))))"
  have u3: "unitDraws ?g3" and u6: "unitDraws ?g6"
    using Suc.prems(1) by (simp_all add: unitDraws_def)
  have k: "nat \<lfloor>?g3 0 * real (length ms)\<rfloor> < length ms"
    by (rule floor_index_in_range) (use unitDraws_0 [OF u3] assms(1) in simp_all)
  from Suc.prems(2) it assms(1) k obtain inst where
    "instanceLoop n ms vf cdf ta sc ?g6 (acc @ [inst]) = (res, g')"
    by (simp add: random_def randFloat_def Let_def)
  from Suc.IH [OF u6 this] show ?case by simp
qed

lemma instanceLoop_zero_models:
  "instanceLoop n [] vf cdf ta sc g acc = (res, g') \<Longrightarrow> res = acc"
  by (induction n arbitrary: g) (auto simp: random_def Let_def split: option.splits)

lemma placeInstances_faces:
  assumes "placeInstances options vf ta g = Some (res, g')" "inst \<in> set res"
  shows "faceData inst \<in> set vf"
proof -
  define n where "n = numInstances ta (density options) (maxCount options)"
  show ?thesis
  proof (cases "n = Num 0 \<or> vf = []")
    case True
    with assms show ?thesis by (simp add: placeInstances_def n_def [symmetric])
  next
    case False
    with assms(1) obtain turns where
      loop: "instanceLoop turns (models options) vf (cdfLoop vf 0 0) ta (scale options) g []
               = (res, g')"
      by (auto simp: placeInstances_def n_def [symmetric] split: option.splits)
    have "\<forall>it \<in> set (cdfLoop vf 0 0). fst it < length vf"
      using cdfLoop_indices [of _ vf 0 0] by auto
    from instanceLoop_faces [OF this _ loop] assms(2) show ?thesis by simp
  qed
qed

lemma placeFoliage_faces:
  assumes "inst \<in> set (fst (placeFoliageOnMesh options g))"
  shows "\<exists>indices. index options = Some indices \<and>
           faceData inst \<in> set (fst (collectFaces (maxSlope options) (outerBoundary options)
             (innerBoundary options) (positions options) indices))"
proof (cases "index options")
  case None
  with assms show ?thesis by (simp add: placeFoliageOnMesh_def)
next
  case (Some indices)
  obtain vf ta where c: "collectFaces (maxSlope options) (outerBoundary options)
      (innerBoundary options) (positions options) indices = (vf, ta)"
    by (cases "collectFaces (maxSlope options) (outerBoundary options)
      (innerBoundary options) (positions options) indices")
  show ?thesis
  proof (cases "placeInstances options vf ta g")
    case None
    with assms Some c show ?thesis by (simp add: placeFoliageOnMesh_def)
  next
    case (Some result)
    obtain res g' where result: "result = (res, g')" by (cases result)
    from assms \<open>index options = Some indices\<close> c Some have "inst \<in> set res"
      by (simp add: placeFoliageOnMesh_def result)
    from placeInstances_faces [OF Some [unfolded result] this] c
      \<open>index options = Some indices\<close>
    show ?thesis by simp
  qed
qed

text \<open>The number of instances is the number of turns of the loop.\<close>

lemma placeInstances_length:
  assumes "models options \<noteq> []" "unitDraws g" "\<forall>f \<in> set vf. 0 \<le> area f"
    and "ta = accumulatedArea vf"
  shows "map_option (\<lambda>result. length (fst result)) (placeInstances options vf ta g)
           = loopTurns (numInstances ta (density options) (maxCount options))"
proof -
  define n where "n = numInstances ta (density options) (maxCount options)"
  have empty: "n = Num 0 \<or> n = NaN" if "vf = []"
  proof -
    from that assms(4) have "ta = 0" by (simp add: accumulatedArea_def)
    have "round53 0 = 0" by (rule round53_zero)
    then have z: "fl64 0 = Num 0" by (rule fl64_Num) simp
    have "mathFloor (mulNumber (fl64 (ta / 100)) (density options)) = Num 0
          \<or> mathFloor (mulNumber (fl64 (ta / 100)) (density options)) = NaN"
      by (cases "density options")
        (simp_all add: \<open>ta = 0\<close> z mulNumber_def mathFloor_def signOf_def)
    then show ?thesis
      by (auto simp: n_def numInstances_def Let_def mathMin_def split: option.splits)
  qed
  show ?thesis
  proof (cases "n = Num 0 \<or> vf = []")
    case True
    with empty have "n = Num 0 \<or> n = NaN" by blast
    with True show ?thesis
      by (auto simp: placeInstances_def n_def [symmetric] loopTurns_def)
  next
    case False
    show ?thesis
    proof (cases "loopTurns n")
      case None
      with False show ?thesis by (simp add: placeInstances_def n_def [symmetric])
    next
      case (Some turns)
      obtain res g' where
        loop: "instanceLoop turns (models options) vf (cdfLoop vf 0 0) ta (scale options) g []
                 = (res, g')"
        by (cases "instanceLoop turns (models options) vf (cdfLoop vf 0 0) ta
                     (scale options) g []")
      have find: "List.find (\<lambda>it. snd it \<ge> round53 (r * ta)) (cdfLoop vf 0 0) \<noteq> None"
        if "0 \<le> r" "r < 1" for r
      proof (rule cdfLoop_find)
        show "vf \<noteq> []" using False by simp
        have "round53 (r * accumulatedArea vf) \<le> accumulatedArea vf"
          by (rule sample_below_total) (use False assms(3) that in simp_all)
        then show "round53 (r * ta) \<le> foldl (\<lambda>total f. round53 (total + area f)) 0 vf"
          by (simp add: assms(4) accumulatedArea_def)
      qed
      from instanceLoop_length [OF assms(1) find assms(2) loop]
      have "length res = turns" by simp
      with False Some loop show ?thesis
        by (simp add: placeInstances_def n_def [symmetric])
    qed
  qed
qed

lemma placeFoliage_run:
  assumes "index options = Some indices"
    and "collectFaces (maxSlope options) (outerBoundary options) (innerBoundary options)
           (positions options) indices = (vf, ta)"
  shows "(\<forall>f \<in> set vf. 0 \<le> area f) \<and> ta = accumulatedArea vf \<and>
         placeFoliageOnMesh options g
           = (case placeInstances options vf ta g of None \<Rightarrow> ([], g) | Some result \<Rightarrow> result)"
  using collectFaces_accepted [OF assms(2)] collectFaces_total [OF assms(2)] assms
  by (simp add: placeFoliageOnMesh_def)

lemma placeFoliage_length:
  assumes "models options \<noteq> []" "unitDraws g"
    and "loopTurns (numInstances (totalValidArea options) (density options) (maxCount options))
           = Some turns"
    and "index options \<noteq> None"
  shows "length (fst (placeFoliageOnMesh options g)) = turns"
proof -
  from assms(4) obtain indices where i: "index options = Some indices" by auto
  obtain vf ta where c: "collectFaces (maxSlope options) (outerBoundary options)
      (innerBoundary options) (positions options) indices = (vf, ta)"
    by (cases "collectFaces (maxSlope options) (outerBoundary options)
      (innerBoundary options) (positions options) indices")
  have ta: "totalValidArea options = ta" by (simp add: totalValidArea_def i c)
  note run = placeFoliage_run [OF i c, of g]
  from run have "map_option (\<lambda>result. length (fst result)) (placeInstances options vf ta g)
      = loopTurns (numInstances ta (density options) (maxCount options))"
    by (intro placeInstances_length assms(1,2)) simp_all
  with assms(3) obtain result where
    "placeInstances options vf ta g = Some result" "length (fst result) = turns"
    by (auto simp: ta)
  with run show ?thesis by simp
qed

text \<open>The count for a finite total area and density, no cap, and no overflow.\<close>

lemma numInstances_Num:
  assumes "round53 (ta / 100) = q" "\<bar>q\<bar> < 2 ^ 1024" "round53 (q * d) = p" "\<bar>p\<bar> < 2 ^ 1024"
  shows "numInstances ta (Num d) None = Num (of_int \<lfloor>p\<rfloor>)"
  using fl64_Num [OF assms(1,2)] fl64_Num [OF assms(3,4)]
  by (simp add: numInstances_def mulNumber_def mathFloor_def)

text \<open>
  A mesh of one horizontal triangle of area 29 at height 1, whose centroid lies in a field
  of 2 by 60; one prototype, no cap, no exclusion polygon.
\<close>

definition longField :: "vec3 list" where
  "longField = [Vec3 (- 1) 0 (- 1), Vec3 1 0 (- 1), Vec3 1 0 59, Vec3 (- 1) 0 59]"

definition sampleOptions :: "real \<Rightarrow> unit PlaceFoliageOptions" where
  "sampleOptions d =
     \<lparr>positions = [Vec3 0 1 0, Vec3 0 1 58, Vec3 1 1 0], index = Some [0, 1, 2],
      models = [()], density = Num d, maxCount = None, maxSlope = 30, scale = 1,
      outerBoundary = longField, innerBoundary = []\<rparr>"

lemma sqrt_3364: "sqrt 3364 = 58"
proof -
  have "sqrt (58 ^ 2) = 58" by (simp only: real_sqrt_abs)
  then show ?thesis by simp
qed

lemma sample_accept:
  "acceptFace (cos (degToRad 30)) longField [] (Vec3 0 1 0) (Vec3 0 1 58) (Vec3 1 1 0)"
proof -
  have n: "getNormal (Vec3 0 1 0) (Vec3 0 1 58) (Vec3 1 1 0) = Vec3 0 1 0"
    by (simp add: getNormal_def cross3_def sub3_def lengthSq3_def multiplyScalar3_def sqrt_3364)
  have c: "centroid2D (Vec3 0 1 0) (Vec3 0 1 58) (Vec3 1 1 0) = Vec2 (1/3) (58/3)"
    by (simp add: centroid2D_def add3_def multiplyScalar3_def)
  have i: "isPointInPolygon (Vec2 (1/3) (58/3)) longField"
    by (simp add: isPointInPolygon_def longField_def intersect_def upt_rec)
  have o: "\<not> isPointInPolygon (Vec2 (1/3) (58/3)) []"
    by (simp add: isPointInPolygon_def)
  have "\<not> 1 < cos (degToRad 30)" by (simp add: not_less)
  with n c i o show ?thesis by (simp add: acceptFace_def)
qed

lemma sample_area: "getArea (Vec3 0 1 0) (Vec3 0 1 58) (Vec3 1 1 0) = 29"
  by (simp add: getArea_def cross3_def sub3_def length3_def sqrt_3364)

lemma sample_collect:
  "collectFaces 30 longField [] [Vec3 0 1 0, Vec3 0 1 58, Vec3 1 1 0] [0, Suc 0, 2]
     = ([\<lparr>vA = Vec3 0 1 0, vB = Vec3 0 1 58, vC = Vec3 1 1 0,
           faceNormal = getNormal (Vec3 0 1 0) (Vec3 0 1 58) (Vec3 1 1 0), area = 29\<rparr>], 29)"
proof -
  have "round53 (0 + 29) = 29" by code_simp
  with sample_accept show ?thesis by (simp add: collectFaces_def sample_area Let_def)
qed

lemma sample_totalValidArea: "totalValidArea (sampleOptions d) = 29"
  by (simp add: totalValidArea_def sampleOptions_def sample_collect)

lemma sample_numInstances:
  "numInstances 29 (Num 100) None = Num 28" "numInstances 29 (Num (- 300)) None = Num (- 87)"
proof -
  have q: "round53 (29 / 100) = 5224175567749775 / 2 ^ 54" by code_simp
  have p: "round53 (5224175567749775 / 2 ^ 54 * 100) = 8162774324609023 / 2 ^ 48"
    by code_simp
  have f: "\<lfloor>8162774324609023 / 2 ^ 48 :: real\<rfloor> = 28" by code_simp
  from numInstances_Num [OF q _ p] f show "numInstances 29 (Num 100) None = Num 28" by simp
  have p': "round53 (5224175567749775 / 2 ^ 54 * - 300) = - 87" by code_simp
  from numInstances_Num [OF q _ p'] show "numInstances 29 (Num (- 300)) None = Num (- 87)"
    by simp
qed

lemma sample_count:
  "length (fst (placeFoliageOnMesh (sampleOptions 100) (\<lambda>_. 1/4))) = 28"
  "length (fst (placeFoliageOnMesh (sampleOptions (- 300)) (\<lambda>_. 1/4))) = 0"
proof -
  have m: "models (sampleOptions d) \<noteq> []" "index (sampleOptions d) \<noteq> None"
    "density (sampleOptions d) = Num d" "maxCount (sampleOptions d) = None" for d
    by (simp_all add: sampleOptions_def)
  have u: "unitDraws (\<lambda>_. 1/4)" by (simp add: unitDraws_def)
  show "length (fst (placeFoliageOnMesh (sampleOptions 100) (\<lambda>_. 1/4))) = 28"
    by (rule placeFoliage_length [OF m(1) u _ m(2)])
      (simp add: sample_totalValidArea m sample_numInstances loopTurns_def)
  show "length (fst (placeFoliageOnMesh (sampleOptions (- 300)) (\<lambda>_. 1/4))) = 0"
    by (rule placeFoliage_length [OF m(1) u _ m(2)])
      (simp add: sample_totalValidArea m sample_numInstances loopTurns_def)
qed

text \<open>
  Claim C4, as stated, does not hold. On the sample mesh the total valid area is 29. With
  density 100 the formula gives 29, but the quotient 29/100 and its product with 100 are
  rounded to doubles, the product is just below 29, and 28 instances are placed. With
  density -300 the formula gives -87, the loop does not run, and no instance is placed.
\<close>

theorem foliage_count_counterexample:
  "models (sampleOptions 100) \<noteq> [] \<and> unitDraws (\<lambda>_. 1/4) \<and>
   maxCount (sampleOptions 100) = None \<and>
   totalValidArea (sampleOptions 100) = 29 \<and>
   density (sampleOptions 100) = Num 100 \<and>
   \<lfloor>totalValidArea (sampleOptions 100) / 100 * 100\<rfloor> = 29 \<and>
   length (fst (placeFoliageOnMesh (sampleOptions 100) (\<lambda>_. 1/4))) = 28 \<and>
   density (sampleOptions (- 300)) = Num (- 300) \<and>
   \<lfloor>totalValidArea (sampleOptions (- 300)) / 100 * (- 300)\<rfloor> = - 87 \<and>
   length (fst (placeFoliageOnMesh (sampleOptions (- 300)) (\<lambda>_. 1/4))) = 0"
  by (simp add: sample_count sample_totalValidArea)
    (simp add: sampleOptions_def unitDraws_def)

text \<open>
  Claim C4, amended. \<open>validFaces\<close> and \<open>totalArea\<close> stand for what the face loop of a run
  leaves: faces of non-negative area and the double-precision sum of their areas
  (\<open>placeFoliage_run\<close>). For every placement run with at least one prototype (and draws
  in [0, 1)), the count is n = floor(totalArea/100 * density) in the arithmetic of the
  program, where the quotient and the product are each rounded to a double, and
  min(n, cap) when a valid cap is configured; the number of placed instances is the number
  of turns that the instance loop makes under that count: the count itself when it is
  positive, 0 when it is negative or NaN (as under a density field that does not parse),
  and when it is +Infinity the loop does not end. With density = 0 no instance is placed
  and nothing is handed to the scene.
\<close>

theorem foliage_instance_count:
  assumes "models options \<noteq> []" "unitDraws g"
    and "\<forall>f \<in> set validFaces. 0 \<le> area f" "totalArea = accumulatedArea validFaces"
  shows "map_option (\<lambda>result. length (fst result)) (placeInstances options validFaces totalArea g)
           = loopTurns
               (case maxCount options of
                  None \<Rightarrow> mathFloor (mulNumber (fl64 (totalArea / 100)) (density options))
                | Some m \<Rightarrow>
                    if m \<ge> 0
                    then mathMin (mathFloor (mulNumber (fl64 (totalArea / 100))
                                                       (density options)))
                                 (Num (of_int m))
                    else mathFloor (mulNumber (fl64 (totalArea / 100)) (density options))) \<and>
         (density options = Num 0 \<longrightarrow> fst (placeFoliageOnMesh options g) = [])"
proof
  show "map_option (\<lambda>result. length (fst result)) (placeInstances options validFaces totalArea g)
           = loopTurns
               (case maxCount options of
                  None \<Rightarrow> mathFloor (mulNumber (fl64 (totalArea / 100)) (density options))
                | Some m \<Rightarrow>
                    if m \<ge> 0
                    then mathMin (mathFloor (mulNumber (fl64 (totalArea / 100))
                                                       (density options)))
                                 (Num (of_int m))
                    else mathFloor (mulNumber (fl64 (totalArea / 100)) (density options)))"
    using placeInstances_length [OF assms]
    by (simp add: numInstances_def Let_def split: option.splits)
  show "density options = Num 0 \<longrightarrow> fst (placeFoliageOnMesh options g) = []"
  proof
    assume d: "density options = Num 0"
    have zero: "round53 0 = 0" by (rule round53_zero)
    have "instances = []"
      if "placeInstances options vf ta g' = Some (instances, g'')" for vf ta g' instances g''
    proof -
      define n where "n = numInstances ta (Num 0) (maxCount options)"
      have "n = Num 0 \<or> n = NaN"
      proof (cases "fl64 (ta / 100)")
        case (Num x)
        have "fl64 (x * 0) = Num 0" using fl64_Num [OF zero] by simp
        then show ?thesis
          by (simp add: n_def numInstances_def Let_def Num mulNumber_def mathFloor_def
              mathMin_def split: option.splits)
      qed (simp_all add: n_def numInstances_def Let_def mulNumber_def signOf_def mathFloor_def
            mathMin_def split: option.splits)
      with that show ?thesis
        by (auto simp: placeInstances_def d n_def [symmetric] loopTurns_def split: if_splits)
    qed
    then show "fst (placeFoliageOnMesh options g) = []"
      by (auto simp: placeFoliageOnMesh_def split: option.splits prod.splits)
  qed
qed

theorem foliage_instance_count_witness:
  "models (sampleOptions 100) \<noteq> [] \<and> unitDraws (\<lambda>_. 1/4) \<and>
   accumulatedArea [\<lparr>vA = Vec3 0 1 0, vB = Vec3 0 1 58, vC = Vec3 1 1 0,
                      faceNormal = Vec3 0 1 0, area = 29\<rparr>] = 29 \<and>
   mathFloor (mulNumber (fl64 (29 / 100)) (Num 100)) = Num 28 \<and>
   map_option (\<lambda>result. length (fst result))
     (placeInstances (sampleOptions 100)
        [\<lparr>vA = Vec3 0 1 0, vB = Vec3 0 1 58, vC = Vec3 1 1 0,
          faceNormal = Vec3 0 1 0, area = 29\<rparr>] 29 (\<lambda>_. 1/4)) = Some 28 \<and>
   fst (placeFoliageOnMesh (sampleOptions 0) (\<lambda>_. 1/4)) = []"
proof -
  let ?f = "\<lparr>vA = Vec3 0 1 0, vB = Vec3 0 1 58, vC = Vec3 1 1 0,
             faceNormal = Vec3 0 1 0, area = 29\<rparr>"
  have m: "models (sampleOptions d) \<noteq> []" "density (sampleOptions d) = Num d"
    "maxCount (sampleOptions d) = None" for d
    by (simp_all add: sampleOptions_def)
  have u: "unitDraws (\<lambda>_. 1/4)" by (simp add: unitDraws_def)
  have "round53 (0 + 29) = 29" by code_simp
  then have a: "accumulatedArea [?f] = 29" by (simp add: accumulatedArea_def)
  have n: "mathFloor (mulNumber (fl64 (29 / 100)) (Num 100)) = Num 28"
    using sample_numInstances(1) by (simp add: numInstances_def)
  have pos: "\<forall>f \<in> set [?f]. 0 \<le> area f" by simp
  from foliage_instance_count [OF m(1) u pos a [symmetric], of 100]
  have "map_option (\<lambda>result. length (fst result))
     (placeInstances (sampleOptions 100) [?f] 29 (\<lambda>_. 1/4)) = Some 28"
    by (simp add: m n loopTurns_def)
  moreover from foliage_instance_count [OF m(1) u pos a [symmetric], of 0]
  have "fst (placeFoliageOnMesh (sampleOptions 0) (\<lambda>_. 1/4)) = []"
    by (simp add: m)
  ultimately show ?thesis using m(1) u a n by blast
qed

lemma acceptFace_passes:
  "acceptFace (cos (degToRad (maxSlope options))) (outerBoundary options)
     (innerBoundary options) (vA f) (vB f) (vC f) \<Longrightarrow> passesTests options f"
  by (simp add: acceptFace_def passesTests_def not_less split: if_splits)



section \<open>Surface tessellator: the two meshes of \<^verbatim>\<open>generateIsland\<close>\<close>

text \<open>
  \<^verbatim>\<open>Vector2.lerp\<close> and \<^verbatim>\<open>MathUtils.smoothstep\<close> of three.js, and the depression that the
  lakes press into a height (\<^verbatim>\<open>lakes.forEach\<close> with \<^verbatim>\<open>finalY\<close> as the state).
\<close>

definition lerp2 :: "vec2 \<Rightarrow> vec2 \<Rightarrow> real \<Rightarrow> vec2" where
  "lerp2 a b alpha = Vec2 (px a + (px b - px a) * alpha) (py a + (py b - py a) * alpha)"

definition smoothstep :: "real \<Rightarrow> real \<Rightarrow> real \<Rightarrow> real" where
  "smoothstep x lo hi =
     (if x \<le> lo then 0 else if x \<ge> hi then 1
      else (let u = (x - lo) / (hi - lo) in u * u * (3 - 2 * u)))"

definition applyLakes :: "Lake list \<Rightarrow> vec2 \<Rightarrow> real \<Rightarrow> real" where
  "applyLakes lakes point2D y =
     foldl (\<lambda>finalY lake.
              let dist = distanceTo2 point2D (center lake)
              in if dist < radius lake
                 then finalY - depth lake * (1.0 - smoothstep dist 0 (radius lake))
                 else finalY)
           y lakes"

text \<open>
  An index buffer is a list of triangles: each \<^verbatim>\<open>indices.push(a, b, c)\<close> is one triple.
\<close>

type_synonym triangle = "nat \<times> nat \<times> nat"

subsection \<open>The central island surface\<close>

text \<open>
  The vertex buffer holds the centre, then the rings row by row, then the contour, then
  the bottom of the skirt; \<^verbatim>\<open>vertexIndex\<close> counts them, which gives the three index
  tables in closed form.
\<close>

definition surfaceNumRings :: nat where "surfaceNumRings = 60"

definition gridIndices :: "nat \<Rightarrow> nat \<Rightarrow> nat \<Rightarrow> nat" where
  "gridIndices numSegments r s = 1 + r * numSegments + s"

definition contourIndices :: "nat \<Rightarrow> nat \<Rightarrow> nat \<Rightarrow> nat" where
  "contourIndices numSegments numRings s = 1 + numRings * numSegments + s"

definition bottomSkirtStartIndex :: "nat \<Rightarrow> nat \<Rightarrow> nat" where
  "bottomSkirtStartIndex numSegments numRings = 1 + numRings * numSegments + numSegments"

definition ringLerp :: "nat \<Rightarrow> nat \<Rightarrow> real" where
  "ringLerp numRings r = (let u = (real r + 1) / (real numRings + 1) in 1 - (1 - u) ^ 2)"

definition ringVertex :: "Terrain \<Rightarrow> Lake list \<Rightarrow> vec3 \<Rightarrow> nat \<Rightarrow> nat \<Rightarrow> vec3 \<Rightarrow> vec3" where
  "ringVertex ter lakes centerPoint numRings r edgePoint =
     (let rl = ringLerp numRings r;
          basePointXZ = lerp2 (Vec2 (vx centerPoint) (vz centerPoint))
                              (Vec2 (vx edgePoint) (vz edgePoint)) rl;
          pointY = noiseHeight ter (px basePointXZ) (py basePointXZ);
          interpolatedContourY = lerp (vy centerPoint) (vy edgePoint) rl;
          blendFactor = rl ^ 2;
          finalY = applyLakes lakes basePointXZ (lerp pointY interpolatedContourY blendFactor)
      in Vec3 (px basePointXZ) finalY (py basePointXZ))"

definition contourVertex :: "Lake list \<Rightarrow> vec3 \<Rightarrow> vec3" where
  "contourVertex lakes p = Vec3 (vx p) (applyLakes lakes (Vec2 (vx p) (vz p)) (vy p)) (vz p)"

definition skirtVertex :: "vec3 \<Rightarrow> vec3" where
  "skirtVertex p = Vec3 (vx p) 0 (vz p)"

definition surfaceVertices :: "Terrain \<Rightarrow> Lake list \<Rightarrow> vec3 \<Rightarrow> nat \<Rightarrow> vec3 list \<Rightarrow> vec3 list" where
  "surfaceVertices ter lakes centerPoint numRings centralContourVertices =
     [centerPoint]
     @ concat (map (\<lambda>r. map (\<lambda>s. ringVertex ter lakes centerPoint numRings r
                                     (centralContourVertices ! s))
                             [0..<length centralContourVertices])
                   [0..<numRings])
     @ map (contourVertex lakes) centralContourVertices
     @ map skirtVertex centralContourVertices"

text \<open>The four index loops, in the source's order.\<close>

definition fanTriangles :: "nat \<Rightarrow> triangle list" where
  "fanTriangles numSegments =
     map (\<lambda>s. (0, gridIndices numSegments 0 s, gridIndices numSegments 0 ((s + 1) mod numSegments)))
         [0..<numSegments]"

definition ringTriangles :: "nat \<Rightarrow> nat \<Rightarrow> triangle list" where
  "ringTriangles numSegments numRings =
     concat (map (\<lambda>r. concat (map (\<lambda>s.
        let next_s = (s + 1) mod numSegments
        in [(gridIndices numSegments r s, gridIndices numSegments r next_s,
             gridIndices numSegments (r + 1) next_s),
            (gridIndices numSegments r s, gridIndices numSegments (r + 1) next_s,
             gridIndices numSegments (r + 1) s)]) [0..<numSegments])) [0..<numRings - 1])"

definition transitionTriangles :: "nat \<Rightarrow> nat \<Rightarrow> triangle list" where
  "transitionTriangles numSegments numRings =
     concat (map (\<lambda>s.
        let next_s = (s + 1) mod numSegments;
            lastRingIndex = numRings - 1
        in [(gridIndices numSegments lastRingIndex s, gridIndices numSegments lastRingIndex next_s,
             contourIndices numSegments numRings next_s),
            (gridIndices numSegments lastRingIndex s, contourIndices numSegments numRings next_s,
             contourIndices numSegments numRings s)]) [0..<numSegments])"

definition skirtTriangles :: "nat \<Rightarrow> nat \<Rightarrow> triangle list" where
  "skirtTriangles numSegments numRings =
     concat (map (\<lambda>s.
        let next_s = (s + 1) mod numSegments
        in [(contourIndices numSegments numRings s, contourIndices numSegments numRings next_s,
             bottomSkirtStartIndex numSegments numRings + next_s),
            (contourIndices numSegments numRings s,
             bottomSkirtStartIndex numSegments numRings + next_s,
             bottomSkirtStartIndex numSegments numRings + s)]) [0..<numSegments])"

definition surfaceIndices :: "nat \<Rightarrow> nat \<Rightarrow> triangle list" where
  "surfaceIndices numSegments numRings =
     fanTriangles numSegments @ ringTriangles numSegments numRings
     @ transitionTriangles numSegments numRings @ skirtTriangles numSegments numRings"

subsection \<open>The ground-cover band\<close>

text \<open>
  Rows \<^verbatim>\<open>r = 0 .. numRings\<close> run from the shoreline (\<^verbatim>\<open>uniqueExtendedShorelinePoints\<close>) to
  the sand boundary (\<^verbatim>\<open>uniqueBoundaryPoints\<close>); the skirt hangs from row 0. Each list
  holds the points of a closed curve sampled by \<^verbatim>\<open>getPoints(MESH_BOUNDARY_RESOLUTION)\<close>,
  without the last one; the two lists are arguments of the model, and nothing is assumed
  about their lengths.
\<close>

definition groundNumRings :: nat where "groundNumRings = 32"

definition groundGridIndices :: "nat \<Rightarrow> nat \<Rightarrow> nat \<Rightarrow> nat" where
  "groundGridIndices numSegments r s = r * numSegments + s"

definition skirtBottomStartIndex :: "nat \<Rightarrow> nat \<Rightarrow> nat" where
  "skirtBottomStartIndex numSegments numRings = (numRings + 1) * numSegments"

definition groundVertex :: "Lake list \<Rightarrow> nat \<Rightarrow> nat \<Rightarrow> vec3 \<Rightarrow> vec3 \<Rightarrow> vec3" where
  "groundVertex lakes numRings r outerPoint innerPoint =
     (let rl = real r / real numRings;
          p = lerp3 outerPoint innerPoint rl
      in Vec3 (vx p) (applyLakes lakes (Vec2 (vx p) (vz p)) (vy p)) (vz p))"

definition groundCoverVertices :: "Lake list \<Rightarrow> nat \<Rightarrow> vec3 list \<Rightarrow> vec3 list \<Rightarrow> vec3 list" where
  "groundCoverVertices lakes numRings uniqueExtendedShorelinePoints uniqueBoundaryPoints =
     concat (map (\<lambda>r. map (\<lambda>s. groundVertex lakes numRings r
                                     (uniqueExtendedShorelinePoints ! s)
                                     (uniqueBoundaryPoints ! s))
                             [0..<length uniqueBoundaryPoints])
                   [0..<numRings + 1])
     @ map skirtVertex uniqueExtendedShorelinePoints"

definition groundBandTriangles :: "nat \<Rightarrow> nat \<Rightarrow> triangle list" where
  "groundBandTriangles numSegments numRings =
     concat (map (\<lambda>r. concat (map (\<lambda>s.
        let next_s = (s + 1) mod numSegments;
            i_tl = groundGridIndices numSegments r s;
            i_tr = groundGridIndices numSegments r next_s;
            i_bl = groundGridIndices numSegments (r + 1) s;
            i_br = groundGridIndices numSegments (r + 1) next_s
        in [(i_tl, i_bl, i_br), (i_tl, i_br, i_tr)]) [0..<numSegments])) [0..<numRings])"

definition groundSkirtTriangles :: "nat \<Rightarrow> nat \<Rightarrow> triangle list" where
  "groundSkirtTriangles numSegments numRings =
     concat (map (\<lambda>s.
        let next_s = (s + 1) mod numSegments;
            top_curr = groundGridIndices numSegments 0 s;
            top_next = groundGridIndices numSegments 0 next_s;
            bottom_curr = skirtBottomStartIndex numSegments numRings + s;
            bottom_next = skirtBottomStartIndex numSegments numRings + next_s
        in [(top_curr, top_next, bottom_next), (top_curr, bottom_next, bottom_curr)])
        [0..<numSegments])"

definition groundCoverIndices :: "nat \<Rightarrow> nat \<Rightarrow> triangle list" where
  "groundCoverIndices numSegments numRings =
     groundBandTriangles numSegments numRings @ groundSkirtTriangles numSegments numRings"

text \<open>
  The ground-cover mesh as a whole. The source builds it when both curves gave more than
  two points (the lists here are the curves' points without the last one) and there is at
  least one segment; otherwise there is no such mesh (\<open>None\<close>). The vertex loop reads a
  shoreline point for every segment of the sand boundary: when the shoreline list is the
  shorter one the read gives \<^verbatim>\<open>undefined\<close>, and \<^verbatim>\<open>outerPoint.clone()\<close> throws a \<^verbatim>\<open>TypeError\<close>.
\<close>

definition groundCoverMesh ::
  "Lake list \<Rightarrow> vec3 list \<Rightarrow> vec3 list \<Rightarrow> error + (vec3 list \<times> triangle list) option" where
  "groundCoverMesh lakes uniqueExtendedShorelinePoints uniqueBoundaryPoints =
     (if length uniqueBoundaryPoints + 1 > 2 \<and> length uniqueExtendedShorelinePoints + 1 > 2
         \<and> length uniqueBoundaryPoints > 0
      then if length uniqueExtendedShorelinePoints < length uniqueBoundaryPoints
           then Inl TypeError
           else Inr (Some (groundCoverVertices lakes groundNumRings
                             uniqueExtendedShorelinePoints uniqueBoundaryPoints,
                           groundCoverIndices (length uniqueBoundaryPoints) groundNumRings))
      else Inr None)"

subsection \<open>Winding\<close>

text \<open>
  The vertical component of the cross product \<open>(b - a) \<times> (c - a)\<close>, which has the direction
  of the face normal that three.js computes. The axes are right-handed with Y up: seen
  from above, the triangle \<open>a, b, c\<close> runs counter-clockwise exactly when this is positive.
\<close>

definition windingY :: "vec3 \<Rightarrow> vec3 \<Rightarrow> vec3 \<Rightarrow> real" where
  "windingY a b c = (vz b - vz a) * (vx c - vx a) - (vx b - vx a) * (vz c - vz a)"

definition triangleWinding :: "vec3 list \<Rightarrow> triangle \<Rightarrow> real" where
  "triangleWinding vs tri = (case tri of (a, b, c) \<Rightarrow> windingY (vs ! a) (vs ! b) (vs ! c))"

definition ccwFromAbove :: "vec3 list \<Rightarrow> triangle \<Rightarrow> bool" where
  "ccwFromAbove vs tri = (triangleWinding vs tri > 0)"

text \<open>
  The turn from \<open>p\<close> to \<open>q\<close> as seen from \<open>c\<close>, in the XZ plane: positive when the angle
  \<^verbatim>\<open>atan2(z, x)\<close> about \<open>c\<close> grows from \<open>p\<close> to \<open>q\<close> by less than a half turn.
\<close>

definition turn :: "vec3 \<Rightarrow> vec3 \<Rightarrow> vec3 \<Rightarrow> real" where
  "turn c p q = (vx p - vx c) * (vz q - vz c) - (vz p - vz c) * (vx q - vx c)"

definition crossXZ :: "vec3 \<Rightarrow> vec3 \<Rightarrow> real" where
  "crossXZ u v = vx u * vz v - vz u * vx v"

lemma length_grid:
  "length (concat (map (\<lambda>r. map (f r) [0..<n]) [0..<R])) = R * n"
  by (induction R) simp_all

lemma nth_grid:
  "r < R \<Longrightarrow> s < n \<Longrightarrow> concat (map (\<lambda>r. map (f r) [0..<n]) [0..<R]) ! (r * n + s) = f r s"
proof (induction R)
  case 0
  then show ?case by simp
next
  case (Suc R)
  show ?case
  proof (cases "r < R")
    case True
    then have "Suc r \<le> R" by simp
    then have "Suc r * n \<le> R * n" by (rule mult_le_mono1)
    with Suc.prems(2) have "r * n + s < R * n" by simp
    with Suc.IH [OF True Suc.prems(2)] show ?thesis
      by (simp add: nth_append length_grid)
  next
    case False
    with Suc.prems(1) have "r = R" by simp
    with Suc.prems(2) show ?thesis by (simp add: nth_append length_grid)
  qed
qed

lemma surfaceVertices_center:
  "surfaceVertices ter lakes c R contour ! 0 = c"
  by (simp add: surfaceVertices_def)

lemma surfaceVertices_grid:
  assumes "r < R" "s < length contour"
  shows "surfaceVertices ter lakes c R contour ! gridIndices (length contour) r s
           = ringVertex ter lakes c R r (contour ! s)"
proof -
  have "Suc r \<le> R" using assms(1) by simp
  then have "Suc r * length contour \<le> R * length contour" by (rule mult_le_mono1)
  with assms(2) have "r * length contour + s < R * length contour" by simp
  then show ?thesis
    using nth_grid [OF assms, of "\<lambda>r s. ringVertex ter lakes c R r (contour ! s)"]
    by (simp add: surfaceVertices_def gridIndices_def nth_append length_grid)
qed

lemma surfaceVertices_contour:
  assumes "s < length contour"
  shows "surfaceVertices ter lakes c R contour ! contourIndices (length contour) R s
           = contourVertex lakes (contour ! s)"
  using assms
  by (simp add: surfaceVertices_def contourIndices_def nth_append length_grid)

lemma surfaceVertices_skirt:
  assumes "s < length contour"
  shows "surfaceVertices ter lakes c R contour ! (bottomSkirtStartIndex (length contour) R + s)
           = skirtVertex (contour ! s)"
  using assms
  by (simp add: surfaceVertices_def bottomSkirtStartIndex_def nth_append length_grid)

lemma groundCoverVertices_grid:
  assumes "r \<le> R" "s < length inner"
  shows "groundCoverVertices lakes R outer inner ! groundGridIndices (length inner) r s
           = groundVertex lakes R r (outer ! s) (inner ! s)"
proof -
  define G where "G = concat (map (\<lambda>r. map (\<lambda>s. groundVertex lakes R r (outer ! s) (inner ! s))
                             [0..<length inner]) [0..<R + 1])"
  have vs: "groundCoverVertices lakes R outer inner = G @ map skirtVertex outer"
    by (simp add: groundCoverVertices_def G_def)
  have lenG: "length G = (R + 1) * length inner"
    unfolding G_def by (rule length_grid)
  have "r * length inner \<le> R * length inner" using assms(1) by (rule mult_le_mono1)
  moreover have "(R + 1) * length inner = R * length inner + length inner" by simp
  ultimately have idx: "r * length inner + s < (R + 1) * length inner"
    using assms(2) by linarith
  have "r < R + 1" using assms(1) by simp
  then have "G ! (r * length inner + s) = groundVertex lakes R r (outer ! s) (inner ! s)"
    unfolding G_def using assms(2) by (rule nth_grid)
  with idx show ?thesis
    by (simp only: vs nth_append lenG groundGridIndices_def if_True)
qed

lemma groundCoverVertices_skirt:
  assumes "s < length outer"
  shows "groundCoverVertices lakes R outer inner ! (skirtBottomStartIndex (length inner) R + s)
           = skirtVertex (outer ! s)"
proof -
  define G where "G = concat (map (\<lambda>r. map (\<lambda>s. groundVertex lakes R r (outer ! s) (inner ! s))
                             [0..<length inner]) [0..<R + 1])"
  have vs: "groundCoverVertices lakes R outer inner = G @ map skirtVertex outer"
    by (simp add: groundCoverVertices_def G_def)
  have lenG: "length G = (R + 1) * length inner"
    unfolding G_def by (rule length_grid)
  show ?thesis
    using assms by (simp add: vs nth_append lenG skirtBottomStartIndex_def)
qed

lemma ringVertex_xz:
  "vx (ringVertex ter lakes c R r e) = vx c + (vx e - vx c) * ringLerp R r"
  "vz (ringVertex ter lakes c R r e) = vz c + (vz e - vz c) * ringLerp R r"
  by (simp_all add: ringVertex_def lerp2_def Let_def)

lemma contourVertex_xz: "vx (contourVertex lakes p) = vx p" "vz (contourVertex lakes p) = vz p"
  by (simp_all add: contourVertex_def)

lemma skirtVertex_xz: "vx (skirtVertex p) = vx p" "vz (skirtVertex p) = vz p"
  by (simp_all add: skirtVertex_def)

lemma groundVertex_xz:
  "vx (groundVertex lakes R r o' i') = vx o' + (vx i' - vx o') * (real r / real R)"
  "vz (groundVertex lakes R r o' i') = vz o' + (vz i' - vz o') * (real r / real R)"
  by (simp_all add: groundVertex_def lerp3_def Let_def)

lemma ringLerp_eq:
  "ringLerp R r = ((real r + 1) / (real R + 1)) * (2 - (real r + 1) / (real R + 1))"
  by (simp add: ringLerp_def power2_eq_square algebra_simps)

lemma ringLerp_unit:
  assumes "r < R"
  shows "0 < ringLerp R r \<and> ringLerp R r < 1"
proof -
  define u where "u = (real r + 1) / (real R + 1)"
  have u: "0 < u" "u < 1" using assms by (simp_all add: u_def)
  have "ringLerp R r = 1 - (1 - u) ^ 2" by (simp add: ringLerp_def u_def)
  moreover have "0 < (1 - u) ^ 2" using u by simp
  moreover have "ringLerp R r = u * (2 - u)" by (simp add: ringLerp_eq u_def)
  moreover have "0 < u * (2 - u)" using u by simp
  ultimately show ?thesis by simp
qed

lemma ringLerp_mono:
  assumes "Suc r < R"
  shows "ringLerp R r < ringLerp R (Suc r)"
proof -
  define u where "u = (real r + 1) / (real R + 1)"
  define w where "w = (real (Suc r) + 1) / (real R + 1)"
  have uw: "0 < u" "u < w" "w < 1"
    using assms by (simp_all add: u_def w_def divide_strict_right_mono)
  have "ringLerp R (Suc r) - ringLerp R r = (1 - u) ^ 2 - (1 - w) ^ 2"
    by (simp add: ringLerp_def u_def w_def)
  also have "\<dots> = (w - u) * (2 - u - w)"
    by (simp add: power2_eq_square algebra_simps)
  also have "\<dots> > 0" using uw by simp
  finally show ?thesis by simp
qed

text \<open>
  The two conditions that decide the winding. The contour is star-shaped about the centre
  in the direction of growing angle: every step from a point to the next one, and from the
  last to the first, is a positive turn. The band is oriented: in every sector the edge of
  the sand boundary and the edge of the first row after the shoreline make a positive
  cross product with the side \<open>outer s \<rightarrow> inner s\<close>, and the edge of the shoreline and the edge
  of the last row before the sand boundary make one with the side of the next column.
  (The row \<open>r\<close> of the band lies at the fraction \<open>r / numRings\<close> between shoreline and sand
  boundary, so the edge of row 1 is \<open>((numRings - 1) * outerEdge + innerEdge) / numRings\<close>.)
  The tessellator checks neither; both are properties of the point lists that it is given.
\<close>

definition starShaped :: "vec3 \<Rightarrow> vec3 list \<Rightarrow> bool" where
  "starShaped c contour =
     (\<forall>s < length contour. turn c (contour ! s) (contour ! ((s + 1) mod length contour)) > 0)"

definition bandOriented :: "nat \<Rightarrow> vec3 list \<Rightarrow> vec3 list \<Rightarrow> bool" where
  "bandOriented numRings outer inner =
     (\<forall>s < length inner.
         let next_s = (s + 1) mod length inner;
             outerEdge = sub3 (outer ! next_s) (outer ! s);
             innerEdge = sub3 (inner ! next_s) (inner ! s);
             side = sub3 (inner ! s) (outer ! s);
             side_next = sub3 (inner ! next_s) (outer ! next_s)
         in 0 < crossXZ innerEdge side \<and>
            0 < (real numRings - 1) * crossXZ outerEdge side + crossXZ innerEdge side \<and>
            0 < crossXZ outerEdge side_next \<and>
            0 < crossXZ outerEdge side_next + (real numRings - 1) * crossXZ innerEdge side_next)"

lemma winding_fan:
  assumes "vx A = cx" "vz A = cz"
    and "vx B = cx + (ex - cx) * a" "vz B = cz + (ez - cz) * a"
    and "vx C = cx + (fx - cx) * a" "vz C = cz + (fz - cz) * a"
  shows "windingY A B C = - (a * a * ((ex - cx) * (fz - cz) - (ez - cz) * (fx - cx)))"
  by (simp add: windingY_def assms algebra_simps)

lemma winding_strip_first:
  assumes "vx A = cx + (ex - cx) * a" "vz A = cz + (ez - cz) * a"
    and "vx B = cx + (fx - cx) * a" "vz B = cz + (fz - cz) * a"
    and "vx C = cx + (fx - cx) * b" "vz C = cz + (fz - cz) * b"
  shows "windingY A B C = a * (b - a) * ((ex - cx) * (fz - cz) - (ez - cz) * (fx - cx))"
  by (simp add: windingY_def assms algebra_simps)

lemma winding_strip_second:
  assumes "vx A = cx + (ex - cx) * a" "vz A = cz + (ez - cz) * a"
    and "vx B = cx + (fx - cx) * b" "vz B = cz + (fz - cz) * b"
    and "vx C = cx + (ex - cx) * b" "vz C = cz + (ez - cz) * b"
  shows "windingY A B C = b * (b - a) * ((ex - cx) * (fz - cz) - (ez - cz) * (fx - cx))"
  by (simp add: windingY_def assms algebra_simps)

lemma winding_band_first:
  assumes "vx A = osx + (isx - osx) * u" "vz A = osz + (isz - osz) * u"
    and "vx B = osx + (isx - osx) * w" "vz B = osz + (isz - osz) * w"
    and "vx C = onx + (inx - onx) * w" "vz C = onz + (inz - onz) * w"
  shows "windingY A B C =
           (w - u) * ((1 - w) * ((onx - osx) * (isz - osz) - (onz - osz) * (isx - osx))
                      + w * ((inx - isx) * (isz - osz) - (inz - isz) * (isx - osx)))"
  by (simp add: windingY_def assms algebra_simps)

lemma winding_band_second:
  assumes "vx A = osx + (isx - osx) * u" "vz A = osz + (isz - osz) * u"
    and "vx B = onx + (inx - onx) * w" "vz B = onz + (inz - onz) * w"
    and "vx C = onx + (inx - onx) * u" "vz C = onz + (inz - onz) * u"
  shows "windingY A B C =
           (w - u) * ((1 - u) * ((onx - osx) * (inz - onz) - (onz - osz) * (inx - onx))
                      + u * ((inx - isx) * (inz - onz) - (inz - isz) * (inx - onx)))"
  by (simp add: windingY_def assms algebra_simps)

lemma convex_pos:
  assumes "0 \<le> u" "u \<le> 1" "0 < x" "0 < y"
  shows "0 < (1 - u) * x + u * (y::real)"
proof (cases "u = 0")
  case True
  with assms show ?thesis by simp
next
  case False
  with assms have "0 < u * y" by simp
  moreover have "0 \<le> (1 - u) * x" using assms by simp
  ultimately show ?thesis by linarith
qed

lemma next_in_range: "s < n \<Longrightarrow> (s + 1) mod n < (n::nat)"
  by simp

lemma fan_triangle_winding:
  assumes "0 < R" "s < length contour"
  shows "triangleWinding (surfaceVertices ter lakes c R contour)
           (0, gridIndices (length contour) 0 s,
            gridIndices (length contour) 0 ((s + 1) mod length contour))
         = - (ringLerp R 0 * ringLerp R 0
              * turn c (contour ! s) (contour ! ((s + 1) mod length contour)))"
  unfolding triangleWinding_def prod.case turn_def
  by (rule winding_fan)
    (simp_all only: surfaceVertices_center surfaceVertices_grid [OF assms(1) assms(2)]
      surfaceVertices_grid [OF assms(1) next_in_range [OF assms(2)]] ringVertex_xz)

lemma ring_triangle_winding:
  assumes "Suc r < R" "s < length contour"
  shows "triangleWinding (surfaceVertices ter lakes c R contour)
           (gridIndices (length contour) r s,
            gridIndices (length contour) r ((s + 1) mod length contour),
            gridIndices (length contour) (r + 1) ((s + 1) mod length contour))
         = ringLerp R r * (ringLerp R (r + 1) - ringLerp R r)
           * turn c (contour ! s) (contour ! ((s + 1) mod length contour))"
    and "triangleWinding (surfaceVertices ter lakes c R contour)
           (gridIndices (length contour) r s,
            gridIndices (length contour) (r + 1) ((s + 1) mod length contour),
            gridIndices (length contour) (r + 1) s)
         = ringLerp R (r + 1) * (ringLerp R (r + 1) - ringLerp R r)
           * turn c (contour ! s) (contour ! ((s + 1) mod length contour))"
proof -
  have r: "r < R" "r + 1 < R" using assms(1) by simp_all
  note n = next_in_range [OF assms(2)]
  show "triangleWinding (surfaceVertices ter lakes c R contour)
           (gridIndices (length contour) r s,
            gridIndices (length contour) r ((s + 1) mod length contour),
            gridIndices (length contour) (r + 1) ((s + 1) mod length contour))
         = ringLerp R r * (ringLerp R (r + 1) - ringLerp R r)
           * turn c (contour ! s) (contour ! ((s + 1) mod length contour))"
    unfolding triangleWinding_def prod.case turn_def
    by (rule winding_strip_first)
      (simp_all only: surfaceVertices_grid [OF r(1) assms(2)] surfaceVertices_grid [OF r(1) n]
        surfaceVertices_grid [OF r(2) n] ringVertex_xz)
  show "triangleWinding (surfaceVertices ter lakes c R contour)
           (gridIndices (length contour) r s,
            gridIndices (length contour) (r + 1) ((s + 1) mod length contour),
            gridIndices (length contour) (r + 1) s)
         = ringLerp R (r + 1) * (ringLerp R (r + 1) - ringLerp R r)
           * turn c (contour ! s) (contour ! ((s + 1) mod length contour))"
    unfolding triangleWinding_def prod.case turn_def
    by (rule winding_strip_second)
      (simp_all only: surfaceVertices_grid [OF r(1) assms(2)] surfaceVertices_grid [OF r(2) n]
        surfaceVertices_grid [OF r(2) assms(2)] ringVertex_xz)
qed

lemma transition_triangle_winding:
  assumes "0 < R" "s < length contour"
  shows "triangleWinding (surfaceVertices ter lakes c R contour)
           (gridIndices (length contour) (R - 1) s,
            gridIndices (length contour) (R - 1) ((s + 1) mod length contour),
            contourIndices (length contour) R ((s + 1) mod length contour))
         = ringLerp R (R - 1) * (1 - ringLerp R (R - 1))
           * turn c (contour ! s) (contour ! ((s + 1) mod length contour))"
    and "triangleWinding (surfaceVertices ter lakes c R contour)
           (gridIndices (length contour) (R - 1) s,
            contourIndices (length contour) R ((s + 1) mod length contour),
            contourIndices (length contour) R s)
         = 1 * (1 - ringLerp R (R - 1))
           * turn c (contour ! s) (contour ! ((s + 1) mod length contour))"
proof -
  have r: "R - 1 < R" using assms(1) by simp
  note n = next_in_range [OF assms(2)]
  show "triangleWinding (surfaceVertices ter lakes c R contour)
           (gridIndices (length contour) (R - 1) s,
            gridIndices (length contour) (R - 1) ((s + 1) mod length contour),
            contourIndices (length contour) R ((s + 1) mod length contour))
         = ringLerp R (R - 1) * (1 - ringLerp R (R - 1))
           * turn c (contour ! s) (contour ! ((s + 1) mod length contour))"
    unfolding triangleWinding_def prod.case turn_def
    by (rule winding_strip_first)
      (simp_all only: surfaceVertices_grid [OF r assms(2)] surfaceVertices_grid [OF r n]
        surfaceVertices_contour [OF n] ringVertex_xz contourVertex_xz, simp_all)
  show "triangleWinding (surfaceVertices ter lakes c R contour)
           (gridIndices (length contour) (R - 1) s,
            contourIndices (length contour) R ((s + 1) mod length contour),
            contourIndices (length contour) R s)
         = 1 * (1 - ringLerp R (R - 1))
           * turn c (contour ! s) (contour ! ((s + 1) mod length contour))"
    unfolding triangleWinding_def prod.case turn_def
    by (rule winding_strip_second)
      (simp_all only: surfaceVertices_grid [OF r assms(2)] surfaceVertices_contour [OF n]
        surfaceVertices_contour [OF assms(2)] ringVertex_xz contourVertex_xz, simp_all)
qed

lemma skirt_triangle_winding:
  assumes "s < length contour"
  shows "triangleWinding (surfaceVertices ter lakes c R contour)
           (contourIndices (length contour) R s,
            contourIndices (length contour) R ((s + 1) mod length contour),
            bottomSkirtStartIndex (length contour) R + (s + 1) mod length contour) = 0"
    and "triangleWinding (surfaceVertices ter lakes c R contour)
           (contourIndices (length contour) R s,
            bottomSkirtStartIndex (length contour) R + (s + 1) mod length contour,
            bottomSkirtStartIndex (length contour) R + s) = 0"
  using assms next_in_range [OF assms]
  by (simp_all add: triangleWinding_def windingY_def surfaceVertices_contour
      surfaceVertices_skirt contourVertex_xz skirtVertex_xz)

lemma band_triangle_winding:
  assumes "r < R" "s < length inner"
  shows "triangleWinding (groundCoverVertices lakes R outer inner)
           (groundGridIndices (length inner) r s,
            groundGridIndices (length inner) (r + 1) s,
            groundGridIndices (length inner) (r + 1) ((s + 1) mod length inner))
         = (real (r + 1) / real R - real r / real R)
           * ((1 - real (r + 1) / real R)
                * crossXZ (sub3 (outer ! ((s + 1) mod length inner)) (outer ! s))
                          (sub3 (inner ! s) (outer ! s))
              + real (r + 1) / real R
                * crossXZ (sub3 (inner ! ((s + 1) mod length inner)) (inner ! s))
                          (sub3 (inner ! s) (outer ! s)))"
    and "triangleWinding (groundCoverVertices lakes R outer inner)
           (groundGridIndices (length inner) r s,
            groundGridIndices (length inner) (r + 1) ((s + 1) mod length inner),
            groundGridIndices (length inner) r ((s + 1) mod length inner))
         = (real (r + 1) / real R - real r / real R)
           * ((1 - real r / real R)
                * crossXZ (sub3 (outer ! ((s + 1) mod length inner)) (outer ! s))
                          (sub3 (inner ! ((s + 1) mod length inner))
                                (outer ! ((s + 1) mod length inner)))
              + real r / real R
                * crossXZ (sub3 (inner ! ((s + 1) mod length inner)) (inner ! s))
                          (sub3 (inner ! ((s + 1) mod length inner))
                                (outer ! ((s + 1) mod length inner))))"
proof -
  have r: "r \<le> R" "r + 1 \<le> R" using assms(1) by simp_all
  note n = next_in_range [OF assms(2)]
  show "triangleWinding (groundCoverVertices lakes R outer inner)
           (groundGridIndices (length inner) r s,
            groundGridIndices (length inner) (r + 1) s,
            groundGridIndices (length inner) (r + 1) ((s + 1) mod length inner))
         = (real (r + 1) / real R - real r / real R)
           * ((1 - real (r + 1) / real R)
                * crossXZ (sub3 (outer ! ((s + 1) mod length inner)) (outer ! s))
                          (sub3 (inner ! s) (outer ! s))
              + real (r + 1) / real R
                * crossXZ (sub3 (inner ! ((s + 1) mod length inner)) (inner ! s))
                          (sub3 (inner ! s) (outer ! s)))"
    unfolding triangleWinding_def prod.case crossXZ_def sub3_def vec3.sel
    by (rule winding_band_first)
      (simp_all only: groundCoverVertices_grid [OF r(1) assms(2)]
        groundCoverVertices_grid [OF r(2) assms(2)] groundCoverVertices_grid [OF r(2) n]
        groundVertex_xz)
  show "triangleWinding (groundCoverVertices lakes R outer inner)
           (groundGridIndices (length inner) r s,
            groundGridIndices (length inner) (r + 1) ((s + 1) mod length inner),
            groundGridIndices (length inner) r ((s + 1) mod length inner))
         = (real (r + 1) / real R - real r / real R)
           * ((1 - real r / real R)
                * crossXZ (sub3 (outer ! ((s + 1) mod length inner)) (outer ! s))
                          (sub3 (inner ! ((s + 1) mod length inner))
                                (outer ! ((s + 1) mod length inner)))
              + real r / real R
                * crossXZ (sub3 (inner ! ((s + 1) mod length inner)) (inner ! s))
                          (sub3 (inner ! ((s + 1) mod length inner))
                                (outer ! ((s + 1) mod length inner))))"
    unfolding triangleWinding_def prod.case crossXZ_def sub3_def vec3.sel
    by (rule winding_band_second)
      (simp_all only: groundCoverVertices_grid [OF r(1) assms(2)]
        groundCoverVertices_grid [OF r(1) n] groundCoverVertices_grid [OF r(2) n]
        groundVertex_xz)
qed

lemma ground_skirt_triangle_winding:
  assumes "s < length inner" "length inner \<le> length outer"
  shows "triangleWinding (groundCoverVertices lakes R outer inner)
           (groundGridIndices (length inner) 0 s,
            groundGridIndices (length inner) 0 ((s + 1) mod length inner),
            skirtBottomStartIndex (length inner) R + (s + 1) mod length inner) = 0"
    and "triangleWinding (groundCoverVertices lakes R outer inner)
           (groundGridIndices (length inner) 0 s,
            skirtBottomStartIndex (length inner) R + (s + 1) mod length inner,
            skirtBottomStartIndex (length inner) R + s) = 0"
  using assms next_in_range [OF assms(1)]
  by (simp_all add: triangleWinding_def windingY_def groundCoverVertices_grid
      groundCoverVertices_skirt groundVertex_xz skirtVertex_xz)

lemma ringTriangles_cases:
  assumes "tri \<in> set (ringTriangles n R)"
  obtains r s where "Suc r < R" "s < n"
    "tri = (gridIndices n r s, gridIndices n r ((s + 1) mod n),
            gridIndices n (r + 1) ((s + 1) mod n))
     \<or> tri = (gridIndices n r s, gridIndices n (r + 1) ((s + 1) mod n),
              gridIndices n (r + 1) s)"
proof -
  from assms have "\<exists>r s.
    (Suc r < R) \<and>
    (s < n) \<and>
    (tri = (gridIndices n r s, gridIndices n r ((s + 1) mod n),
            gridIndices n (r + 1) ((s + 1) mod n))
     \<or> tri = (gridIndices n r s, gridIndices n (r + 1) ((s + 1) mod n),
              gridIndices n (r + 1) s))"
    by (fastforce simp: ringTriangles_def Let_def less_diff_conv)
  then show ?thesis using that by blast
qed

lemma transitionTriangles_cases:
  assumes "tri \<in> set (transitionTriangles n R)"
  obtains s where "s < n"
    "tri = (gridIndices n (R - 1) s, gridIndices n (R - 1) ((s + 1) mod n),
            contourIndices n R ((s + 1) mod n))
     \<or> tri = (gridIndices n (R - 1) s, contourIndices n R ((s + 1) mod n),
              contourIndices n R s)"
proof -
  from assms have "\<exists>s.
    (s < n) \<and>
    (tri = (gridIndices n (R - 1) s, gridIndices n (R - 1) ((s + 1) mod n),
            contourIndices n R ((s + 1) mod n))
     \<or> tri = (gridIndices n (R - 1) s, contourIndices n R ((s + 1) mod n),
              contourIndices n R s))"
    by (fastforce simp: transitionTriangles_def Let_def less_diff_conv)
  then show ?thesis using that by blast
qed

lemma skirtTriangles_cases:
  assumes "tri \<in> set (skirtTriangles n R)"
  obtains s where "s < n"
    "tri = (contourIndices n R s, contourIndices n R ((s + 1) mod n),
            bottomSkirtStartIndex n R + (s + 1) mod n)
     \<or> tri = (contourIndices n R s, bottomSkirtStartIndex n R + (s + 1) mod n,
              bottomSkirtStartIndex n R + s)"
proof -
  from assms have "\<exists>s.
    (s < n) \<and>
    (tri = (contourIndices n R s, contourIndices n R ((s + 1) mod n),
            bottomSkirtStartIndex n R + (s + 1) mod n)
     \<or> tri = (contourIndices n R s, bottomSkirtStartIndex n R + (s + 1) mod n,
              bottomSkirtStartIndex n R + s))"
    by (fastforce simp: skirtTriangles_def Let_def less_diff_conv)
  then show ?thesis using that by blast
qed

lemma groundBandTriangles_cases:
  assumes "tri \<in> set (groundBandTriangles n R)"
  obtains r s where "r < R" "s < n"
    "tri = (groundGridIndices n r s, groundGridIndices n (r + 1) s,
            groundGridIndices n (r + 1) ((s + 1) mod n))
     \<or> tri = (groundGridIndices n r s, groundGridIndices n (r + 1) ((s + 1) mod n),
              groundGridIndices n r ((s + 1) mod n))"
proof -
  from assms have "\<exists>r s.
    (r < R) \<and>
    (s < n) \<and>
    (tri = (groundGridIndices n r s, groundGridIndices n (r + 1) s,
            groundGridIndices n (r + 1) ((s + 1) mod n))
     \<or> tri = (groundGridIndices n r s, groundGridIndices n (r + 1) ((s + 1) mod n),
              groundGridIndices n r ((s + 1) mod n)))"
    by (fastforce simp: groundBandTriangles_def Let_def less_diff_conv)
  then show ?thesis using that by blast
qed

lemma groundSkirtTriangles_cases:
  assumes "tri \<in> set (groundSkirtTriangles n R)"
  obtains s where "s < n"
    "tri = (groundGridIndices n 0 s, groundGridIndices n 0 ((s + 1) mod n),
            skirtBottomStartIndex n R + (s + 1) mod n)
     \<or> tri = (groundGridIndices n 0 s, skirtBottomStartIndex n R + (s + 1) mod n,
              skirtBottomStartIndex n R + s)"
proof -
  from assms have "\<exists>s.
    (s < n) \<and>
    (tri = (groundGridIndices n 0 s, groundGridIndices n 0 ((s + 1) mod n),
            skirtBottomStartIndex n R + (s + 1) mod n)
     \<or> tri = (groundGridIndices n 0 s, skirtBottomStartIndex n R + (s + 1) mod n,
              skirtBottomStartIndex n R + s))"
    by (fastforce simp: groundSkirtTriangles_def Let_def less_diff_conv)
  then show ?thesis using that by blast
qed

lemma ring_strips_ccw:
  assumes "starShaped c contour" "0 < R"
    and "tri \<in> set (ringTriangles (length contour) R @ transitionTriangles (length contour) R)"
  shows "ccwFromAbove (surfaceVertices ter lakes c R contour) tri"
proof -
  have star: "0 < turn c (contour ! s) (contour ! ((s + 1) mod length contour))"
    if "s < length contour" for s
    using assms(1) that by (simp add: starShaped_def)
  from assms(3) consider "tri \<in> set (ringTriangles (length contour) R)"
    | "tri \<in> set (transitionTriangles (length contour) R)" by auto
  then show ?thesis
  proof cases
    case 1
    then obtain r s where rs: "Suc r < R" "s < length contour"
      and tri: "tri = (gridIndices (length contour) r s,
                  gridIndices (length contour) r ((s + 1) mod length contour),
                  gridIndices (length contour) (r + 1) ((s + 1) mod length contour))
           \<or> tri = (gridIndices (length contour) r s,
                  gridIndices (length contour) (r + 1) ((s + 1) mod length contour),
                  gridIndices (length contour) (r + 1) s)"
      by (rule ringTriangles_cases)
    have a: "0 < ringLerp R r" using ringLerp_unit [of r R] rs(1) by simp
    have b: "0 < ringLerp R (r + 1)" using ringLerp_unit [of "r + 1" R] rs(1) by simp
    have d: "0 < ringLerp R (r + 1) - ringLerp R r" using ringLerp_mono [OF rs(1)] by simp
    from tri show ?thesis
      unfolding ccwFromAbove_def
      using ring_triangle_winding [OF rs, of ter lakes c] a b d star [OF rs(2)]
      by auto
  next
    case 2
    then obtain s where s: "s < length contour"
      and tri: "tri = (gridIndices (length contour) (R - 1) s,
                  gridIndices (length contour) (R - 1) ((s + 1) mod length contour),
                  contourIndices (length contour) R ((s + 1) mod length contour))
           \<or> tri = (gridIndices (length contour) (R - 1) s,
                  contourIndices (length contour) R ((s + 1) mod length contour),
                  contourIndices (length contour) R s)"
      by (rule transitionTriangles_cases)
    have a: "0 < ringLerp R (R - 1)" "0 < 1 - ringLerp R (R - 1)"
      using ringLerp_unit [of "R - 1" R] assms(2) by simp_all
    from tri show ?thesis
      unfolding ccwFromAbove_def
      using transition_triangle_winding [OF assms(2) s, of ter lakes c] a star [OF s]
      by auto
  qed
qed

lemma transition_second_mem:
  "s < n \<Longrightarrow>
   (gridIndices n (R - 1) s, contourIndices n R ((s + 1) mod n), contourIndices n R s)
     \<in> set (transitionTriangles n R)"
  by (force simp: transitionTriangles_def Let_def)

lemma ring_strips_ccw_iff:
  assumes "0 < R"
  shows "(\<forall>tri \<in> set (ringTriangles (length contour) R @ transitionTriangles (length contour) R).
            ccwFromAbove (surfaceVertices ter lakes c R contour) tri)
         \<longleftrightarrow> starShaped c contour"
proof
  assume all: "\<forall>tri \<in> set (ringTriangles (length contour) R @ transitionTriangles (length contour) R).
            ccwFromAbove (surfaceVertices ter lakes c R contour) tri"
  show "starShaped c contour"
    unfolding starShaped_def
  proof (intro allI impI)
    fix s assume s: "s < length contour"
    from transition_second_mem [OF s, of R] all
    have "0 < triangleWinding (surfaceVertices ter lakes c R contour)
                (gridIndices (length contour) (R - 1) s,
                 contourIndices (length contour) R ((s + 1) mod length contour),
                 contourIndices (length contour) R s)"
      by (simp add: ccwFromAbove_def)
    then have "0 < 1 * (1 - ringLerp R (R - 1))
                 * turn c (contour ! s) (contour ! ((s + 1) mod length contour))"
      by (simp only: transition_triangle_winding(2) [OF assms s])
    moreover have "0 < 1 - ringLerp R (R - 1)"
      using ringLerp_unit [of "R - 1" R] assms by simp
    ultimately show "0 < turn c (contour ! s) (contour ! ((s + 1) mod length contour))"
      by (simp add: zero_less_mult_iff)
  qed
next
  assume "starShaped c contour"
  then show "\<forall>tri \<in> set (ringTriangles (length contour) R @ transitionTriangles (length contour) R).
            ccwFromAbove (surfaceVertices ter lakes c R contour) tri"
    using assms by (blast intro: ring_strips_ccw)
qed

lemma band_first_mem:
  "r < R \<Longrightarrow> s < n \<Longrightarrow>
   (groundGridIndices n r s, groundGridIndices n (r + 1) s,
    groundGridIndices n (r + 1) ((s + 1) mod n)) \<in> set (groundBandTriangles n R)"
  by (force simp: groundBandTriangles_def Let_def)

lemma band_second_mem:
  "r < R \<Longrightarrow> s < n \<Longrightarrow>
   (groundGridIndices n r s, groundGridIndices n (r + 1) ((s + 1) mod n),
    groundGridIndices n r ((s + 1) mod n)) \<in> set (groundBandTriangles n R)"
  by (force simp: groundBandTriangles_def Let_def)

lemma interp_pos:
  fixes X Y :: real
  assumes "0 \<le> a" "a \<le> A" "1 \<le> b" "0 < Y" "0 < A * X + Y"
  shows "0 < a * X + b * Y"
proof -
  have y: "Y \<le> b * Y" using assms(3,4) by simp
  show ?thesis
  proof (cases "0 \<le> X")
    case True
    then have "0 \<le> a * X" using assms(1) by simp
    with y assms(4) show ?thesis by linarith
  next
    case False
    then have "A * X \<le> a * X" using assms(2) by (intro mult_right_mono_neg) simp_all
    with y assms(5) show ?thesis by linarith
  qed
qed

lemma band_first_sign:
  assumes "0 < R" "r < R" "s < length inner"
  shows "ccwFromAbove (groundCoverVertices lakes R outer inner)
           (groundGridIndices (length inner) r s,
            groundGridIndices (length inner) (r + 1) s,
            groundGridIndices (length inner) (r + 1) ((s + 1) mod length inner))
         \<longleftrightarrow>
         0 < (real R - real (r + 1))
               * crossXZ (sub3 (outer ! ((s + 1) mod length inner)) (outer ! s))
                         (sub3 (inner ! s) (outer ! s))
             + real (r + 1)
               * crossXZ (sub3 (inner ! ((s + 1) mod length inner)) (inner ! s))
                         (sub3 (inner ! s) (outer ! s))"
proof -
  define X1 where "X1 = crossXZ (sub3 (outer ! ((s + 1) mod length inner)) (outer ! s))
                                (sub3 (inner ! s) (outer ! s))"
  define X2 where "X2 = crossXZ (sub3 (inner ! ((s + 1) mod length inner)) (inner ! s))
                                (sub3 (inner ! s) (outer ! s))"
  have R: "0 < real R" using assms(1) by simp
  have "(real (r + 1) / real R - real r / real R)
          * ((1 - real (r + 1) / real R) * X1 + real (r + 1) / real R * X2)
        = ((real R - real (r + 1)) * X1 + real (r + 1) * X2) / (real R * real R)"
    using R by (simp add: field_simps)
  moreover have "0 < real R * real R" using R by simp
  ultimately show ?thesis
    unfolding ccwFromAbove_def band_triangle_winding(1) [OF assms(2,3)]
      X1_def [symmetric] X2_def [symmetric]
    by (simp only: zero_less_divide_iff) (simp add: not_less [symmetric])
qed

lemma band_second_sign:
  assumes "0 < R" "r < R" "s < length inner"
  shows "ccwFromAbove (groundCoverVertices lakes R outer inner)
           (groundGridIndices (length inner) r s,
            groundGridIndices (length inner) (r + 1) ((s + 1) mod length inner),
            groundGridIndices (length inner) r ((s + 1) mod length inner))
         \<longleftrightarrow>
         0 < (real R - real r)
               * crossXZ (sub3 (outer ! ((s + 1) mod length inner)) (outer ! s))
                         (sub3 (inner ! ((s + 1) mod length inner))
                               (outer ! ((s + 1) mod length inner)))
             + real r
               * crossXZ (sub3 (inner ! ((s + 1) mod length inner)) (inner ! s))
                         (sub3 (inner ! ((s + 1) mod length inner))
                               (outer ! ((s + 1) mod length inner)))"
proof -
  define Y1 where "Y1 = crossXZ (sub3 (outer ! ((s + 1) mod length inner)) (outer ! s))
                         (sub3 (inner ! ((s + 1) mod length inner))
                               (outer ! ((s + 1) mod length inner)))"
  define Y2 where "Y2 = crossXZ (sub3 (inner ! ((s + 1) mod length inner)) (inner ! s))
                         (sub3 (inner ! ((s + 1) mod length inner))
                               (outer ! ((s + 1) mod length inner)))"
  have R: "0 < real R" using assms(1) by simp
  have "(real (r + 1) / real R - real r / real R)
          * ((1 - real r / real R) * Y1 + real r / real R * Y2)
        = ((real R - real r) * Y1 + real r * Y2) / (real R * real R)"
    using R by (simp add: field_simps)
  moreover have "0 < real R * real R" using R by simp
  ultimately show ?thesis
    unfolding ccwFromAbove_def band_triangle_winding(2) [OF assms(2,3)]
      Y1_def [symmetric] Y2_def [symmetric]
    by (simp only: zero_less_divide_iff) (simp add: not_less [symmetric])
qed

lemma ground_band_ccw_iff:
  assumes "0 < R"
  shows "(\<forall>tri \<in> set (groundBandTriangles (length inner) R).
            ccwFromAbove (groundCoverVertices lakes R outer inner) tri)
         \<longleftrightarrow> bandOriented R outer inner"
proof
  assume all: "\<forall>tri \<in> set (groundBandTriangles (length inner) R).
            ccwFromAbove (groundCoverVertices lakes R outer inner) tri"
  have last: "R - 1 < R" "real (R - 1 + 1) = real R" "real (R - 1) = real R - 1"
    using assms by (simp_all add: of_nat_diff)
  show "bandOriented R outer inner"
    unfolding bandOriented_def Let_def
  proof (intro allI impI conjI)
    fix s assume s: "s < length inner"
    from band_first_mem [OF last(1) s] all
    have "ccwFromAbove (groundCoverVertices lakes R outer inner)
           (groundGridIndices (length inner) (R - 1) s,
            groundGridIndices (length inner) (R - 1 + 1) s,
            groundGridIndices (length inner) (R - 1 + 1) ((s + 1) mod length inner))"
      by blast
    then have "0 < (real R - real R)
               * crossXZ (sub3 (outer ! ((s + 1) mod length inner)) (outer ! s))
                         (sub3 (inner ! s) (outer ! s))
             + real R
               * crossXZ (sub3 (inner ! ((s + 1) mod length inner)) (inner ! s))
                         (sub3 (inner ! s) (outer ! s))"
      unfolding band_first_sign [OF assms last(1) s] last(2) .
    then show "0 < crossXZ (sub3 (inner ! ((s + 1) mod length inner)) (inner ! s))
                      (sub3 (inner ! s) (outer ! s))"
      using assms by (simp add: zero_less_mult_iff)
    from band_first_mem [OF assms s] all band_first_sign [OF assms assms s, of lakes outer]
    show "0 < (real R - 1) * crossXZ (sub3 (outer ! ((s + 1) mod length inner)) (outer ! s))
                                    (sub3 (inner ! s) (outer ! s))
              + crossXZ (sub3 (inner ! ((s + 1) mod length inner)) (inner ! s))
                        (sub3 (inner ! s) (outer ! s))"
      by simp
    from band_second_mem [OF assms s] all band_second_sign [OF assms assms s, of lakes outer]
    show "0 < crossXZ (sub3 (outer ! ((s + 1) mod length inner)) (outer ! s))
                      (sub3 (inner ! ((s + 1) mod length inner))
                            (outer ! ((s + 1) mod length inner)))"
      by (simp add: zero_less_mult_iff)
    from band_second_mem [OF last(1) s] all
    have "ccwFromAbove (groundCoverVertices lakes R outer inner)
           (groundGridIndices (length inner) (R - 1) s,
            groundGridIndices (length inner) (R - 1 + 1) ((s + 1) mod length inner),
            groundGridIndices (length inner) (R - 1) ((s + 1) mod length inner))"
      by blast
    then have "0 < (real R - (real R - 1))
               * crossXZ (sub3 (outer ! ((s + 1) mod length inner)) (outer ! s))
                         (sub3 (inner ! ((s + 1) mod length inner))
                               (outer ! ((s + 1) mod length inner)))
             + (real R - 1)
               * crossXZ (sub3 (inner ! ((s + 1) mod length inner)) (inner ! s))
                         (sub3 (inner ! ((s + 1) mod length inner))
                               (outer ! ((s + 1) mod length inner)))"
      unfolding band_second_sign [OF assms last(1) s] last(3) .
    then show "0 < crossXZ (sub3 (outer ! ((s + 1) mod length inner)) (outer ! s))
                      (sub3 (inner ! ((s + 1) mod length inner))
                            (outer ! ((s + 1) mod length inner)))
              + (real R - 1)
                * crossXZ (sub3 (inner ! ((s + 1) mod length inner)) (inner ! s))
                          (sub3 (inner ! ((s + 1) mod length inner))
                                (outer ! ((s + 1) mod length inner)))"
      by simp
  qed
next
  assume oriented: "bandOriented R outer inner"
  show "\<forall>tri \<in> set (groundBandTriangles (length inner) R).
            ccwFromAbove (groundCoverVertices lakes R outer inner) tri"
  proof
    fix tri assume "tri \<in> set (groundBandTriangles (length inner) R)"
    then obtain r s where rs: "r < R" "s < length inner"
      and tri: "tri = (groundGridIndices (length inner) r s,
                  groundGridIndices (length inner) (r + 1) s,
                  groundGridIndices (length inner) (r + 1) ((s + 1) mod length inner))
           \<or> tri = (groundGridIndices (length inner) r s,
                  groundGridIndices (length inner) (r + 1) ((s + 1) mod length inner),
                  groundGridIndices (length inner) r ((s + 1) mod length inner))"
      by (rule groundBandTriangles_cases)
    define next_s where "next_s = (s + 1) mod length inner"
    from oriented rs(2) have
      o: "0 < crossXZ (sub3 (inner ! next_s) (inner ! s)) (sub3 (inner ! s) (outer ! s))"
         "0 < (real R - 1) * crossXZ (sub3 (outer ! next_s) (outer ! s))
                                     (sub3 (inner ! s) (outer ! s))
              + crossXZ (sub3 (inner ! next_s) (inner ! s)) (sub3 (inner ! s) (outer ! s))"
         "0 < crossXZ (sub3 (outer ! next_s) (outer ! s))
                      (sub3 (inner ! next_s) (outer ! next_s))"
         "0 < crossXZ (sub3 (outer ! next_s) (outer ! s))
                      (sub3 (inner ! next_s) (outer ! next_s))
              + (real R - 1) * crossXZ (sub3 (inner ! next_s) (inner ! s))
                                       (sub3 (inner ! next_s) (outer ! next_s))"
      by (simp_all add: bandOriented_def Let_def next_s_def)
    have r: "0 \<le> real R - real (r + 1)" "real R - real (r + 1) \<le> real R - 1"
      "1 \<le> real (r + 1)" "0 \<le> real r" "real r \<le> real R - 1" "1 \<le> real R - real r"
      using rs(1) by simp_all
    from tri show "ccwFromAbove (groundCoverVertices lakes R outer inner) tri"
    proof
      assume t: "tri = (groundGridIndices (length inner) r s,
                  groundGridIndices (length inner) (r + 1) s,
                  groundGridIndices (length inner) (r + 1) ((s + 1) mod length inner))"
      have "0 < (real R - real (r + 1))
                  * crossXZ (sub3 (outer ! next_s) (outer ! s)) (sub3 (inner ! s) (outer ! s))
                + real (r + 1)
                  * crossXZ (sub3 (inner ! next_s) (inner ! s)) (sub3 (inner ! s) (outer ! s))"
        by (rule interp_pos [OF r(1,2,3) o(1,2)])
      then show ?thesis
        unfolding t band_first_sign [OF assms rs] next_s_def .
    next
      assume t: "tri = (groundGridIndices (length inner) r s,
                  groundGridIndices (length inner) (r + 1) ((s + 1) mod length inner),
                  groundGridIndices (length inner) r ((s + 1) mod length inner))"
      have "0 < real r * crossXZ (sub3 (inner ! next_s) (inner ! s))
                                 (sub3 (inner ! next_s) (outer ! next_s))
                + (real R - real r)
                  * crossXZ (sub3 (outer ! next_s) (outer ! s))
                            (sub3 (inner ! next_s) (outer ! next_s))"
        by (rule interp_pos [OF r(4,5,6) o(3)]) (use o(4) in \<open>simp add: add.commute\<close>)
      then show ?thesis
        unfolding t band_second_sign [OF assms rs] next_s_def by (simp add: add.commute)
    qed
  qed
qed

lemma skirts_vertical:
  assumes "tri \<in> set (skirtTriangles (length contour) R)"
  shows "triangleWinding (surfaceVertices ter lakes c R contour) tri = 0"
proof -
  from assms obtain s where s: "s < length contour"
    and tri: "tri = (contourIndices (length contour) R s,
                contourIndices (length contour) R ((s + 1) mod length contour),
                bottomSkirtStartIndex (length contour) R + (s + 1) mod length contour)
     \<or> tri = (contourIndices (length contour) R s,
              bottomSkirtStartIndex (length contour) R + (s + 1) mod length contour,
              bottomSkirtStartIndex (length contour) R + s)"
    by (rule skirtTriangles_cases)
  from tri skirt_triangle_winding [OF s, of ter lakes c R] show ?thesis by auto
qed

lemma ground_skirts_vertical:
  assumes "length inner \<le> length outer"
    and "tri \<in> set (groundSkirtTriangles (length inner) R)"
  shows "triangleWinding (groundCoverVertices lakes R outer inner) tri = 0"
proof -
  from assms(2) obtain s where s: "s < length inner"
    and tri: "tri = (groundGridIndices (length inner) 0 s,
                groundGridIndices (length inner) 0 ((s + 1) mod length inner),
                skirtBottomStartIndex (length inner) R + (s + 1) mod length inner)
     \<or> tri = (groundGridIndices (length inner) 0 s,
              skirtBottomStartIndex (length inner) R + (s + 1) mod length inner,
              skirtBottomStartIndex (length inner) R + s)"
    by (rule groundSkirtTriangles_cases)
  from tri ground_skirt_triangle_winding [OF s assms(1), of lakes R] show ?thesis by auto
qed

text \<open>
  A small island: the sand boundary is a diamond of four points at height 1 around the
  centre (0, 1, 0), laid out in the direction of growing angle; the shoreline is the
  diamond of twice the size at height 1/2.
\<close>

definition diamond :: "vec3 list" where
  "diamond = [Vec3 1 1 0, Vec3 0 1 1, Vec3 (- 1) 1 0, Vec3 0 1 (- 1)]"

definition bigDiamond :: "vec3 list" where
  "bigDiamond = [Vec3 2 (1/2) 0, Vec3 0 (1/2) 2, Vec3 (- 2) (1/2) 0, Vec3 0 (1/2) (- 2)]"

text \<open>
  A contour that doubles back: five points around the same centre at the angles 0, 90,
  45, 180 and 270 degrees, so that the step from the second point to the third is a
  negative turn; and the shoreline of twice the size.
\<close>

definition kinked :: "vec3 list" where
  "kinked = [Vec3 2 1 0, Vec3 0 1 2, Vec3 1 1 1, Vec3 (- 2) 1 0, Vec3 0 1 (- 2)]"

definition bigKinked :: "vec3 list" where
  "bigKinked = [Vec3 4 (1/2) 0, Vec3 0 (1/2) 4, Vec3 2 (1/2) 2, Vec3 (- 4) (1/2) 0,
                Vec3 0 (1/2) (- 4)]"

lemma less_4_cases: "s < 4 \<Longrightarrow> s = 0 \<or> s = Suc 0 \<or> s = 2 \<or> s = (3::nat)"
  by arith

lemma diamond_starShaped: "starShaped (Vec3 0 1 0) diamond"
  unfolding starShaped_def
proof (intro allI impI)
  fix s assume "s < length diamond"
  then have "s = 0 \<or> s = Suc 0 \<or> s = 2 \<or> s = 3"
    by (intro less_4_cases) (simp add: diamond_def)
  then show "0 < turn (Vec3 0 1 0) (diamond ! s) (diamond ! ((s + 1) mod length diamond))"
    by (auto simp: diamond_def turn_def)
qed

lemma diamond_bandOriented: "bandOriented groundNumRings bigDiamond diamond"
  unfolding bandOriented_def
proof (intro allI impI)
  fix s assume "s < length diamond"
  then have "s = 0 \<or> s = Suc 0 \<or> s = 2 \<or> s = 3"
    by (intro less_4_cases) (simp add: diamond_def)
  then show "let next_s = (s + 1) mod length diamond;
                 outerEdge = sub3 (bigDiamond ! next_s) (bigDiamond ! s);
                 innerEdge = sub3 (diamond ! next_s) (diamond ! s);
                 side = sub3 (diamond ! s) (bigDiamond ! s);
                 side_next = sub3 (diamond ! next_s) (bigDiamond ! next_s)
             in 0 < crossXZ innerEdge side \<and>
                0 < (real groundNumRings - 1) * crossXZ outerEdge side + crossXZ innerEdge side \<and>
                0 < crossXZ outerEdge side_next \<and>
                0 < crossXZ outerEdge side_next
                    + (real groundNumRings - 1) * crossXZ innerEdge side_next"
    by (auto simp: diamond_def bigDiamond_def Let_def crossXZ_def sub3_def groundNumRings_def)
qed

lemma kinked_not_starShaped: "\<not> starShaped (Vec3 0 1 0) kinked"
proof
  assume "starShaped (Vec3 0 1 0) kinked"
  from this [unfolded starShaped_def, rule_format, of 1]
  show False by (simp add: kinked_def turn_def)
qed

lemma kinked_not_bandOriented: "\<not> bandOriented groundNumRings bigKinked kinked"
proof
  assume oriented: "bandOriented groundNumRings bigKinked kinked"
  have "1 < length kinked" by (simp add: kinked_def)
  with oriented
  have "0 < crossXZ (sub3 (kinked ! ((1 + 1) mod length kinked)) (kinked ! 1))
                    (sub3 (kinked ! 1) (bigKinked ! 1))"
    unfolding bandOriented_def Let_def by blast
  then show False by (simp add: kinked_def bigKinked_def crossXZ_def sub3_def)
qed

lemma fan_first_triangle:
  "(0, 1, 2) \<in> set (surfaceIndices 4 surfaceNumRings)"
  by (simp add: surfaceIndices_def fanTriangles_def gridIndices_def upt_rec)

lemma skirt_first_triangle:
  "(241, 242, 246) \<in> set (surfaceIndices 4 surfaceNumRings)"
proof -
  have "(contourIndices 4 surfaceNumRings 0, contourIndices 4 surfaceNumRings ((0 + 1) mod 4),
         bottomSkirtStartIndex 4 surfaceNumRings + (0 + 1) mod 4)
        \<in> set (skirtTriangles 4 surfaceNumRings)"
    unfolding skirtTriangles_def Let_def by (simp add: upt_rec)
  then show ?thesis
    by (simp add: surfaceIndices_def contourIndices_def bottomSkirtStartIndex_def
        surfaceNumRings_def)
qed

lemma fan_first_winding:
  "triangleWinding (surfaceVertices ter lakes (Vec3 0 1 0) surfaceNumRings diamond) (0, 1, 2) < 0"
proof -
  have len: "length diamond = 4" by (simp add: diamond_def)
  have "0 < surfaceNumRings" "0 < length diamond" by (simp_all add: surfaceNumRings_def len)
  from fan_triangle_winding [OF this, of ter lakes "Vec3 0 1 0"]
  have "triangleWinding (surfaceVertices ter lakes (Vec3 0 1 0) surfaceNumRings diamond) (0, 1, 2)
          = - (ringLerp surfaceNumRings 0 * ringLerp surfaceNumRings 0
               * turn (Vec3 0 1 0) (diamond ! 0) (diamond ! 1))"
    by (simp add: len gridIndices_def numeral_2_eq_2)
  moreover have "turn (Vec3 0 1 0) (diamond ! 0) (diamond ! 1) = 1"
    by (simp add: diamond_def turn_def)
  moreover have "0 < ringLerp surfaceNumRings 0"
    using ringLerp_unit [of 0 surfaceNumRings] by (simp add: surfaceNumRings_def)
  ultimately show ?thesis by simp
qed

lemma skirt_first_winding:
  "triangleWinding (surfaceVertices ter lakes c surfaceNumRings diamond) (241, 242, 246) = 0"
proof -
  have len: "length diamond = 4" by (simp add: diamond_def)
  have "0 < length diamond" by (simp add: len)
  from skirt_triangle_winding(1) [OF this, of ter lakes c surfaceNumRings]
  show ?thesis
    by (simp add: len contourIndices_def bottomSkirtStartIndex_def surfaceNumRings_def)
qed

text \<open>
  On the contour that doubles back, the first triangle of the first ring strip over the
  second sector, and the first triangle of the ground-cover band over it, run clockwise.
\<close>

lemma kinked_strip_triangle:
  "(2, 3, 8) \<in> set (ringTriangles 5 surfaceNumRings)"
proof -
  have "(gridIndices 5 0 1, gridIndices 5 0 ((1 + 1) mod 5),
         gridIndices 5 (0 + 1) ((1 + 1) mod 5)) \<in> set (ringTriangles 5 surfaceNumRings)"
    unfolding ringTriangles_def Let_def surfaceNumRings_def by (simp add: upt_rec)
  then show ?thesis by (simp add: gridIndices_def numeral_2_eq_2 numeral_3_eq_3)
qed

lemma kinked_strip_winding:
  "triangleWinding (surfaceVertices ter lakes (Vec3 0 1 0) surfaceNumRings kinked) (2, 3, 8) < 0"
proof -
  have len: "length kinked = 5" by (simp add: kinked_def)
  have "Suc 0 < surfaceNumRings" "1 < length kinked" by (simp_all add: surfaceNumRings_def len)
  from ring_triangle_winding(1) [OF this, of ter lakes "Vec3 0 1 0"]
  have "triangleWinding (surfaceVertices ter lakes (Vec3 0 1 0) surfaceNumRings kinked) (2, 3, 8)
          = ringLerp surfaceNumRings 0 * (ringLerp surfaceNumRings (0 + 1) - ringLerp surfaceNumRings 0)
            * turn (Vec3 0 1 0) (kinked ! 1) (kinked ! 2)"
    by (simp add: len gridIndices_def numeral_2_eq_2 numeral_3_eq_3)
  moreover have "turn (Vec3 0 1 0) (kinked ! 1) (kinked ! 2) = - 2"
    by (simp add: kinked_def turn_def)
  moreover have "0 < ringLerp surfaceNumRings 0"
    using ringLerp_unit [of 0 surfaceNumRings] by (simp add: surfaceNumRings_def)
  moreover have "0 < ringLerp surfaceNumRings (0 + 1) - ringLerp surfaceNumRings 0"
    using ringLerp_mono [of 0 surfaceNumRings] by (simp add: surfaceNumRings_def)
  ultimately show ?thesis by (simp add: mult_pos_pos)
qed

lemma kinked_band_triangle:
  "(1, 6, 7) \<in> set (groundBandTriangles 5 groundNumRings)"
proof -
  have "(groundGridIndices 5 0 1, groundGridIndices 5 (0 + 1) 1,
         groundGridIndices 5 (0 + 1) ((1 + 1) mod 5))
        \<in> set (groundBandTriangles 5 groundNumRings)"
    unfolding groundBandTriangles_def Let_def groundNumRings_def by (simp add: upt_rec)
  then show ?thesis by (simp add: groundGridIndices_def)
qed

lemma kinked_band_winding:
  "\<not> ccwFromAbove (groundCoverVertices lakes groundNumRings bigKinked kinked) (1, 6, 7)"
proof -
  have len: "length kinked = 5" by (simp add: kinked_def)
  have "0 < groundNumRings" "0 < groundNumRings" "1 < length kinked"
    by (simp_all add: groundNumRings_def len)
  from band_first_sign [OF this, of lakes bigKinked]
  show ?thesis
    by (simp add: len groundGridIndices_def)
      (simp add: kinked_def bigKinked_def crossXZ_def sub3_def groundNumRings_def)
qed




section \<open>Path network: the Kruskal pass of \<^verbatim>\<open>generateGraphPaths\<close>\<close>

subsection \<open>The union-find structure\<close>

text \<open>
  \<^verbatim>\<open>class UnionFind\<close>: the array \<^verbatim>\<open>parent\<close>, initially the identity. \<^verbatim>\<open>find\<close> follows the
  parent pointers and compresses the path on the way back; it recurses without a bound,
  so it is a partial function and not returning is \<open>None\<close>. The state is passed in and
  returned. (\<^verbatim>\<open>find\<close> and \<^verbatim>\<open>union\<close> carry a suffix: both names are taken in HOL.) An index outside the array is never passed by the caller; the model refuses
  it.
\<close>

definition UnionFind :: "nat \<Rightarrow> nat list" where
  "UnionFind n = [0..<n]"

partial_function (option) find_uf :: "nat list \<Rightarrow> nat \<Rightarrow> (nat \<times> nat list) option" where
  "find_uf parent i =
     (if i \<ge> length parent then None
      else if parent ! i = i then Some (i, parent)
      else Option.bind (find_uf parent (parent ! i))
             (\<lambda>(r, parent'). Some (r, parent'[i := r])))"

definition union_uf :: "nat list \<Rightarrow> nat \<Rightarrow> nat \<Rightarrow> nat list option" where
  "union_uf parent i j =
     (case find_uf parent i of
        None \<Rightarrow> None
      | Some (rootI, parent1) \<Rightarrow>
          (case find_uf parent1 j of
             None \<Rightarrow> None
           | Some (rootJ, parent2) \<Rightarrow>
               Some (if rootI \<noteq> rootJ then parent2[rootI := rootJ] else parent2)))"

subsection \<open>The weighted edge list and the pass\<close>

text \<open>
  An entry \<^verbatim>\<open>{u, v, weight}\<close> of \<^verbatim>\<open>allEdges\<close>. The weight is a squared distance or the
  explicit \<^verbatim>\<open>Infinity\<close> that marks an edge crossing a river. (The fields \<^verbatim>\<open>u\<close> and \<^verbatim>\<open>v\<close>
  carry a prefix: a one-letter constant would capture the variables of every statement.)
\<close>

datatype Weight = Finite real | Infinity

datatype Edge = Edge (eu: nat) (ev: nat) (weight: Weight)

text \<open>
  \<^verbatim>\<open>allEdges.sort((a, b) => a.weight - b.weight)\<close>: a stable sort by ascending weight. The
  difference of two infinite weights is NaN, which the sort reads as "equal", so the
  infinite weights come last in their original order. The sort key says the same: the
  pairs are ordered lexicographically.
\<close>

definition sortKey :: "Edge \<Rightarrow> nat \<times> real" where
  "sortKey e = (case weight e of Finite w \<Rightarrow> (0, w) | Infinity \<Rightarrow> (1, 0))"

definition sortEdges :: "Edge list \<Rightarrow> Edge list" where
  "sortEdges allEdges = sort_key sortKey allEdges"

text \<open>
  The \<^verbatim>\<open>forEach\<close> over the sorted edges, with the union-find array, \<^verbatim>\<open>mstEdges\<close> and
  \<^verbatim>\<open>remainingEdges\<close> as the state. The source pushes \<^verbatim>\<open>{u, v}\<close>; the model keeps the whole
  edge, so that the weight of the selection can be stated.
\<close>

fun kruskalLoop ::
  "Edge list \<Rightarrow> nat list \<Rightarrow> Edge list \<Rightarrow> Edge list \<Rightarrow> (Edge list \<times> Edge list \<times> nat list) option"
  where
  "kruskalLoop [] parent mstEdges remainingEdges = Some (mstEdges, remainingEdges, parent)"
| "kruskalLoop (e # es) parent mstEdges remainingEdges =
     (if weight e = Infinity then kruskalLoop es parent mstEdges remainingEdges
      else (case find_uf parent (eu e) of
              None \<Rightarrow> None
            | Some (ru, parent1) \<Rightarrow>
                (case find_uf parent1 (ev e) of
                   None \<Rightarrow> None
                 | Some (rv, parent2) \<Rightarrow>
                     if ru \<noteq> rv
                     then (case union_uf parent2 (eu e) (ev e) of
                             None \<Rightarrow> None
                           | Some parent3 \<Rightarrow>
                               kruskalLoop es parent3 (mstEdges @ [e]) remainingEdges)
                     else kruskalLoop es parent2 mstEdges (remainingEdges @ [e]))))"

definition kruskal :: "nat \<Rightarrow> Edge list \<Rightarrow> (Edge list \<times> Edge list \<times> nat list) option" where
  "kruskal numNodes allEdges = kruskalLoop (sortEdges allEdges) (UnionFind numNodes) [] []"

subsection \<open>Graphs: connection, forests, spanning forests, weight\<close>

text \<open>
  Two nodes are linked by a set of edges when a walk along edges, in either direction,
  leads from one to the other. A set of edges is acyclic when none of its edges joins two
  nodes that the other edges already connect, that is, when no edge lies on a cycle. It
  spans a graph when it connects exactly the nodes that the graph connects.
\<close>

definition adjacent :: "Edge set \<Rightarrow> (nat \<times> nat) set" where
  "adjacent E = (\<lambda>e. (eu e, ev e)) ` E \<union> (\<lambda>e. (ev e, eu e)) ` E"

definition linked :: "Edge set \<Rightarrow> nat \<Rightarrow> nat \<Rightarrow> bool" where
  "linked E a b = ((a, b) \<in> (adjacent E)\<^sup>*)"

definition acyclicEdges :: "Edge set \<Rightarrow> bool" where
  "acyclicEdges E = (\<forall>e \<in> E. \<not> linked (E - {e}) (eu e) (ev e))"

definition spans :: "Edge set \<Rightarrow> Edge set \<Rightarrow> bool" where
  "spans F G = (\<forall>a b. linked F a b \<longleftrightarrow> linked G a b)"

definition finiteEdges :: "Edge list \<Rightarrow> Edge set" where
  "finiteEdges allEdges = {e \<in> set allEdges. weight e \<noteq> Infinity}"

definition realWeight :: "Edge \<Rightarrow> real" where
  "realWeight e = (case weight e of Finite w \<Rightarrow> w | Infinity \<Rightarrow> 0)"

definition totalWeight :: "Edge list \<Rightarrow> real" where
  "totalWeight es = sum_list (map realWeight es)"

lemma linked_refl: "linked E a a"
  by (simp add: linked_def)

lemma linked_trans: "linked E a b \<Longrightarrow> linked E b c \<Longrightarrow> linked E a c"
  by (simp add: linked_def)

lemma adjacent_sym: "(a, b) \<in> adjacent E \<Longrightarrow> (b, a) \<in> adjacent E"
  by (auto simp: adjacent_def)

lemma linked_sym: "linked E a b \<Longrightarrow> linked E b a"
  unfolding linked_def
proof (induction rule: rtrancl_induct)
  case base
  then show ?case by simp
next
  case (step y z)
  from step.hyps(2) have "(z, y) \<in> adjacent E" by (rule adjacent_sym)
  then show ?case using step.IH by (rule converse_rtrancl_into_rtrancl)
qed

lemma linked_edge: "e \<in> E \<Longrightarrow> linked E (eu e) (ev e)"
  by (auto simp: linked_def adjacent_def)

lemma linked_mono: "E \<subseteq> E' \<Longrightarrow> linked E a b \<Longrightarrow> linked E' a b"
proof -
  assume "E \<subseteq> E'"
  then have "adjacent E \<subseteq> adjacent E'" by (auto simp: adjacent_def)
  then have "(adjacent E)\<^sup>* \<subseteq> (adjacent E')\<^sup>*" by (rule rtrancl_mono)
  then show "linked E a b \<Longrightarrow> linked E' a b" by (auto simp: linked_def)
qed

lemma adjacent_insert:
  "(a, b) \<in> adjacent (insert e E) \<longleftrightarrow>
     (a, b) \<in> adjacent E \<or> (a = eu e \<and> b = ev e) \<or> (a = ev e \<and> b = eu e)"
  by (auto simp: adjacent_def)

text \<open>Adding one edge merges the components of its two ends, and does nothing else.\<close>

lemma linked_insert:
  "linked (insert e E) a b \<longleftrightarrow>
     linked E a b \<or> (linked E a (eu e) \<and> linked E (ev e) b)
                     \<or> (linked E a (ev e) \<and> linked E (eu e) b)"
proof
  assume "linked (insert e E) a b"
  then have "(a, b) \<in> (adjacent (insert e E))\<^sup>*" by (simp add: linked_def)
  then show "linked E a b \<or> (linked E a (eu e) \<and> linked E (ev e) b)
                     \<or> (linked E a (ev e) \<and> linked E (eu e) b)"
  proof (induction rule: rtrancl_induct)
    case base
    then show ?case by (simp add: linked_refl)
  next
    case (step y z)
    from step.hyps(2) consider "(y, z) \<in> adjacent E" | "y = eu e" "z = ev e"
      | "y = ev e" "z = eu e"
      by (auto simp: adjacent_insert)
    then show ?case
    proof cases
      case 1
      then have yz: "linked E y z" by (auto simp: linked_def)
      from step.IH show ?thesis by (auto intro: linked_trans [OF _ yz])
    next
      case 2
      from step.IH show ?thesis
        unfolding 2 by (auto intro: linked_refl linked_trans linked_sym)
    next
      case 3
      from step.IH show ?thesis
        unfolding 3 by (auto intro: linked_refl linked_trans linked_sym)
    qed
  qed
next
  have sub: "E \<subseteq> insert e E" by auto
  have edge: "linked (insert e E) (eu e) (ev e)" by (rule linked_edge) simp
  assume "linked E a b \<or> (linked E a (eu e) \<and> linked E (ev e) b)
                     \<or> (linked E a (ev e) \<and> linked E (eu e) b)"
  then consider "linked E a b" | "linked E a (eu e)" "linked E (ev e) b"
    | "linked E a (ev e)" "linked E (eu e) b" by blast
  then show "linked (insert e E) a b"
  proof cases
    case 1
    then show ?thesis by (rule linked_mono [OF sub])
  next
    case 2
    from linked_trans [OF linked_mono [OF sub 2(1)] edge]
    show ?thesis by (rule linked_trans) (rule linked_mono [OF sub 2(2)])
  next
    case 3
    from linked_trans [OF linked_mono [OF sub 3(1)] linked_sym [OF edge]]
    show ?thesis by (rule linked_trans) (rule linked_mono [OF sub 3(2)])
  qed
qed

lemma acyclicEdges_subset: "E' \<subseteq> E \<Longrightarrow> acyclicEdges E \<Longrightarrow> acyclicEdges E'"
  unfolding acyclicEdges_def
  by (meson Diff_mono linked_mono subsetD subset_refl)

lemma acyclicEdges_insert:
  assumes "acyclicEdges E" "\<not> linked E (eu e) (ev e)"
  shows "acyclicEdges (insert e E)"
  unfolding acyclicEdges_def
proof
  fix x assume x: "x \<in> insert e E"
  show "\<not> linked (insert e E - {x}) (eu x) (ev x)"
  proof (cases "x = e")
    case True
    have "insert e E - {e} \<subseteq> E" by auto
    from linked_mono [OF this] assms(2) True show ?thesis by blast
  next
    case False
    with x have xE: "x \<in> E" by simp
    have eq: "insert e E - {x} = insert e (E - {x})" using False by auto
    have sub: "E - {x} \<subseteq> E" by auto
    have nl: "\<not> linked (E - {x}) (eu x) (ev x)"
      using assms(1) xE by (simp add: acyclicEdges_def)
    have xl: "linked E (eu x) (ev x)" using xE by (rule linked_edge)
    show ?thesis
    proof
      assume "linked (insert e E - {x}) (eu x) (ev x)"
      then consider "linked (E - {x}) (eu x) (ev x)"
        | "linked (E - {x}) (eu x) (eu e)" "linked (E - {x}) (ev e) (ev x)"
        | "linked (E - {x}) (eu x) (ev e)" "linked (E - {x}) (eu e) (ev x)"
        unfolding eq linked_insert by blast
      then show False
      proof cases
        case 1
        with nl show False by simp
      next
        case 2
        from 2 have "linked E (eu e) (eu x)" "linked E (ev x) (ev e)"
          by (auto dest: linked_mono [OF sub] linked_sym)
        from linked_trans [OF linked_trans [OF this(1) xl] this(2)] assms(2)
        show False by simp
      next
        case 3
        from 3 have "linked E (eu e) (ev x)" "linked E (eu x) (ev e)"
          by (auto dest: linked_mono [OF sub] linked_sym)
        from linked_trans [OF linked_trans [OF this(1) linked_sym [OF xl]] this(2)] assms(2)
        show False by simp
      qed
    qed
  qed
qed

text \<open>
  The selection that scanning a list of edges makes: an edge is taken when its ends are
  not yet linked by the edges taken before it.
\<close>

definition takeEdge :: "Edge list \<Rightarrow> Edge \<Rightarrow> Edge list" where
  "takeEdge S e = (if linked (set S) (eu e) (ev e) then S else S @ [e])"

definition greedy :: "Edge list \<Rightarrow> Edge list" where
  "greedy L = foldl takeEdge [] L"

lemma greedy_snoc: "greedy (L @ [e]) = takeEdge (greedy L) e"
  by (simp add: greedy_def)

lemma greedy_subset: "set (greedy L) \<subseteq> set L"
  by (induction L rule: rev_induct) (auto simp: greedy_snoc takeEdge_def greedy_def)

lemma greedy_spans: "spans (set (greedy L)) (set L)"
proof (induction L rule: rev_induct)
  case Nil
  then show ?case by (simp add: greedy_def spans_def)
next
  case (snoc e L)
  then have IH: "\<And>a b. linked (set (greedy L)) a b \<longleftrightarrow> linked (set L) a b"
    by (simp add: spans_def)
  show ?case
  proof (cases "linked (set (greedy L)) (eu e) (ev e)")
    case True
    then have "linked (set L) (eu e) (ev e)" by (simp add: IH)
    then have "linked (insert e (set L)) a b \<longleftrightarrow> linked (set L) a b" for a b
      unfolding linked_insert by (blast intro: linked_trans linked_sym)
    with True show ?thesis by (simp add: greedy_snoc takeEdge_def spans_def IH)
  next
    case False
    then show ?thesis by (simp add: greedy_snoc takeEdge_def spans_def linked_insert IH)
  qed
qed

lemma greedy_acyclic: "acyclicEdges (set (greedy L))"
proof (induction L rule: rev_induct)
  case Nil
  then show ?case by (simp add: greedy_def acyclicEdges_def)
next
  case (snoc e L)
  then show ?case
    by (auto simp: greedy_snoc takeEdge_def intro: acyclicEdges_insert)
qed

lemma greedy_distinct: "distinct (greedy L)"
proof (induction L rule: rev_induct)
  case Nil
  then show ?case by (simp add: greedy_def)
next
  case (snoc e L)
  then show ?case by (auto simp: greedy_snoc takeEdge_def dest: linked_edge)
qed

text \<open>
  On the way from \<open>a\<close> to \<open>b\<close> along the edges of \<open>G\<close>, some edge leaves the component
  of \<open>a\<close> in \<open>F\<close>, unless \<open>b\<close> itself is in that component.
\<close>

lemma crossing_edge:
  assumes "linked G a b" "\<not> linked F a b"
  shows "\<exists>e \<in> G. (linked F a (eu e) \<and> \<not> linked F a (ev e))
                \<or> (linked F a (ev e) \<and> \<not> linked F a (eu e))"
proof -
  from assms(1) have "(a, b) \<in> (adjacent G)\<^sup>*" by (simp add: linked_def)
  then have "linked F a b \<or> (\<exists>e \<in> G. (linked F a (eu e) \<and> \<not> linked F a (ev e))
                \<or> (linked F a (ev e) \<and> \<not> linked F a (eu e)))"
  proof (induction rule: rtrancl_induct)
    case base
    then show ?case by (simp add: linked_refl)
  next
    case (step y z)
    from step.hyps(2) obtain e where "e \<in> G" "(y = eu e \<and> z = ev e) \<or> (y = ev e \<and> z = eu e)"
      by (auto simp: adjacent_def)
    with step.IH show ?case by blast
  qed
  with assms(2) show ?thesis by simp
qed

text \<open>
  The selection from a list sorted by ascending weight weighs no more than any spanning
  forest of the list's edges. By induction on the list from its heaviest edge: a spanning
  forest that uses the heaviest edge where the selection does not can swap it for a
  lighter edge that crosses between the two parts it joins.
\<close>

lemma greedy_minimal:
  "sorted (map realWeight L) \<Longrightarrow> F \<subseteq> set L \<Longrightarrow> acyclicEdges F \<Longrightarrow> spans F (set L) \<Longrightarrow>
   totalWeight (greedy L) \<le> sum realWeight F"
proof (induction L arbitrary: F rule: rev_induct)
  case Nil
  then show ?case by (simp add: greedy_def totalWeight_def)
next
  case (snoc e L)
  have sortedL: "sorted (map realWeight L)" and heavy: "\<And>x. x \<in> set L \<Longrightarrow> realWeight x \<le> realWeight e"
    using snoc.prems(1) by (auto simp: sorted_append)
  have finF: "finite F" using snoc.prems(2) by (rule finite_subset) simp
  have spanF: "\<And>a b. linked F a b \<longleftrightarrow> linked (insert e (set L)) a b"
    using snoc.prems(4) by (simp add: spans_def)
  have gsp: "\<And>a b. linked (set (greedy L)) a b \<longleftrightarrow> linked (set L) a b"
    using greedy_spans [of L] by (simp add: spans_def)
  define F' where "F' = F - {e}"
  have F'sub: "F' \<subseteq> set L" using snoc.prems(2) by (auto simp: F'_def)
  have F'acyc: "acyclicEdges F'"
    by (rule acyclicEdges_subset [OF _ snoc.prems(3)]) (auto simp: F'_def)
  have finF': "finite F'" using finF by (simp add: F'_def)
  have subL: "F' \<subseteq> F" by (auto simp: F'_def)
  show ?case
  proof (cases "linked (set L) (eu e) (ev e)")
    case True
    then have same: "linked (insert e (set L)) a b \<longleftrightarrow> linked (set L) a b" for a b
      unfolding linked_insert by (blast intro: linked_trans linked_sym)
    have g: "greedy (L @ [e]) = greedy L"
      using True by (simp add: greedy_snoc takeEdge_def gsp)
    show ?thesis
    proof (cases "e \<in> F")
      case False
      with snoc.prems(2) have "F \<subseteq> set L" by auto
      moreover have "spans F (set L)" by (simp add: spans_def spanF same)
      ultimately have "totalWeight (greedy L) \<le> sum realWeight F"
        using snoc.IH sortedL snoc.prems(3) by blast
      then show ?thesis by (simp add: g)
    next
      case eF: True
      then have F: "F = insert e F'" and eF': "e \<notin> F'" by (auto simp: F'_def)
      have nl: "\<not> linked F' (eu e) (ev e)"
        using snoc.prems(3) eF by (simp add: acyclicEdges_def F'_def)
      from crossing_edge [OF True nl] obtain e' where e'L: "e' \<in> set L"
        and cross: "(linked F' (eu e) (eu e') \<and> \<not> linked F' (eu e) (ev e'))
                    \<or> (linked F' (eu e) (ev e') \<and> \<not> linked F' (eu e) (eu e'))" by blast
      have e'link: "linked F (eu e') (ev e')"
        unfolding spanF same using e'L by (rule linked_edge)
      have ne': "\<not> linked F' (eu e') (ev e')"
        using cross by (blast intro: linked_trans linked_sym)
      have ends: "(linked F' (eu e) (eu e') \<and> linked F' (ev e) (ev e'))
                  \<or> (linked F' (eu e) (ev e') \<and> linked F' (ev e) (eu e'))"
        using e'link ne' cross unfolding F linked_insert
        by (blast intro: linked_trans linked_sym)
      have e'F': "e' \<notin> F'" using ne' by (blast dest: linked_edge)
      have acyc: "acyclicEdges (insert e' F')"
        using F'acyc ne' by (rule acyclicEdges_insert)
      have sub: "insert e' F' \<subseteq> set L" using F'sub e'L by simp
      have "linked (insert e' F') a b \<longleftrightarrow> linked (insert e F') a b" for a b
        unfolding linked_insert using ends
        by (blast intro: linked_trans linked_sym)
      then have sp: "spans (insert e' F') (set L)"
        using spanF same by (simp add: spans_def F)
      have "totalWeight (greedy L) \<le> sum realWeight (insert e' F')"
        using snoc.IH sortedL sub acyc sp by blast
      also have "\<dots> = realWeight e' + sum realWeight F'"
        using finF' e'F' by simp
      also have "\<dots> \<le> realWeight e + sum realWeight F'"
        using heavy [OF e'L] by simp
      also have "\<dots> = sum realWeight F"
        using finF' eF' by (simp add: F)
      finally show ?thesis by (simp add: g)
    qed
  next
    case False
    have g: "greedy (L @ [e]) = greedy L @ [e]"
      using False by (simp add: greedy_snoc takeEdge_def gsp)
    have eF: "e \<in> F"
    proof (rule ccontr)
      assume "e \<notin> F"
      with snoc.prems(2) have "F \<subseteq> set L" by auto
      moreover have "linked F (eu e) (ev e)"
        unfolding spanF by (rule linked_edge) simp
      ultimately have "linked (set L) (eu e) (ev e)" by (blast dest: linked_mono)
      with False show False by simp
    qed
    then have F: "F = insert e F'" and eF': "e \<notin> F'" by (auto simp: F'_def)
    have "linked F' a b \<longleftrightarrow> linked (set L) a b" for a b
    proof
      assume "linked F' a b"
      then show "linked (set L) a b" by (rule linked_mono [OF F'sub])
    next
      assume ab: "linked (set L) a b"
      then have "linked F a b"
        unfolding spanF by (rule linked_mono [rotated]) auto
      then consider "linked F' a b" | "linked F' a (eu e)" "linked F' (ev e) b"
        | "linked F' a (ev e)" "linked F' (eu e) b"
        unfolding F linked_insert by blast
      then show "linked F' a b"
      proof cases
        case 1
        then show ?thesis .
      next
        case 2
        then have "linked (set L) a (eu e)" "linked (set L) (ev e) b"
          by (auto dest: linked_mono [OF F'sub])
        with ab have "linked (set L) (eu e) (ev e)"
          by (blast intro: linked_trans linked_sym)
        with False show ?thesis by simp
      next
        case 3
        then have "linked (set L) a (ev e)" "linked (set L) (eu e) b"
          by (auto dest: linked_mono [OF F'sub])
        with ab have "linked (set L) (eu e) (ev e)"
          by (blast intro: linked_trans linked_sym)
        with False show ?thesis by simp
      qed
    qed
    then have "spans F' (set L)" by (simp add: spans_def)
    then have "totalWeight (greedy L) \<le> sum realWeight F'"
      using snoc.IH sortedL F'sub F'acyc by blast
    moreover have "sum realWeight F = realWeight e + sum realWeight F'"
      using finF' eF' by (simp add: F)
    ultimately show ?thesis by (simp add: g totalWeight_def)
  qed
qed

subsection \<open>The union-find array represents the components\<close>

text \<open>
  \<open>rootOf parent i r\<close>: following the parent pointers from \<open>i\<close> ends in the root \<open>r\<close>. The
  array is well formed when every index has a root; \<^verbatim>\<open>find\<close> then returns that root.
\<close>

inductive rootOf :: "nat list \<Rightarrow> nat \<Rightarrow> nat \<Rightarrow> bool" where
  root: "i < length parent \<Longrightarrow> parent ! i = i \<Longrightarrow> rootOf parent i i"
| step: "i < length parent \<Longrightarrow> parent ! i \<noteq> i \<Longrightarrow> rootOf parent (parent ! i) r
         \<Longrightarrow> rootOf parent i r"

definition wellFormed :: "nat list \<Rightarrow> bool" where
  "wellFormed parent = (\<forall>i < length parent. \<exists>r. rootOf parent i r)"

definition sameSet :: "nat list \<Rightarrow> nat \<Rightarrow> nat \<Rightarrow> bool" where
  "sameSet parent a b = (\<exists>r. rootOf parent a r \<and> rootOf parent b r)"

lemma rootOf_is_root: "rootOf p i r \<Longrightarrow> r < length p \<and> p ! r = r"
  by (induction rule: rootOf.induct) simp_all

lemma rootOf_in_range: "rootOf p i r \<Longrightarrow> i < length p"
  by (induction rule: rootOf.induct) simp_all

lemma rootOf_unique: "rootOf p i r \<Longrightarrow> rootOf p i r' \<Longrightarrow> r = r'"
proof (induction arbitrary: r' rule: rootOf.induct)
  case (root i parent)
  from root.prems root.hyps show ?case by (cases rule: rootOf.cases) simp_all
next
  case (step i parent r)
  from step.prems step.hyps(1,2) have "rootOf parent (parent ! i) r'"
    by (cases rule: rootOf.cases) simp_all
  then show ?case by (rule step.IH)
qed

lemma rootOf_compress:
  "rootOf p j r' \<Longrightarrow> rootOf p i r \<Longrightarrow> rootOf (p[i := r]) j r'"
proof (induction rule: rootOf.induct)
  case (root j parent)
  show ?case
  proof (cases "j = i")
    case True
    from root.hyps have "rootOf parent j j" by (rule rootOf.root)
    with root.prems True have "r = i" by (auto dest: rootOf_unique)
    with True root.hyps show ?thesis by (simp add: rootOf.root)
  next
    case False
    with root.hyps show ?thesis by (simp add: rootOf.root)
  qed
next
  case (step j parent r')
  show ?case
  proof (cases "j = i")
    case True
    from step.hyps have "rootOf parent j r'" by (rule rootOf.step)
    with step.prems True have r: "r' = r" by (auto dest: rootOf_unique)
    from rootOf_is_root [OF step.prems] have rr: "r < length parent" "parent ! r = r" by simp_all
    with step.hyps(2) True have "r \<noteq> i" by auto
    with rr have "rootOf (parent[i := r]) r r" by (simp add: rootOf.root)
    with True step.hyps(1) \<open>r \<noteq> i\<close> show ?thesis
      by (auto simp: r intro: rootOf.step)
  next
    case False
    with step.hyps(1,2) step.IH [OF step.prems] show ?thesis
      by (auto intro: rootOf.step)
  qed
qed

definition sameRoots :: "nat list \<Rightarrow> nat list \<Rightarrow> bool" where
  "sameRoots p p' = (length p' = length p \<and> (\<forall>j r. rootOf p' j r \<longleftrightarrow> rootOf p j r))"

lemma sameRootsI:
  assumes "wellFormed p" "length p' = length p" "\<And>j r. rootOf p j r \<Longrightarrow> rootOf p' j r"
  shows "sameRoots p p'"
  unfolding sameRoots_def
proof (intro conjI allI iffI)
  show "length p' = length p" by (rule assms(2))
next
  fix j r assume "rootOf p j r"
  then show "rootOf p' j r" by (rule assms(3))
next
  fix j r assume r: "rootOf p' j r"
  then have "j < length p" using rootOf_in_range [OF r] assms(2) by simp
  with assms(1) obtain r0 where r0: "rootOf p j r0" by (auto simp: wellFormed_def)
  from rootOf_unique [OF r assms(3) [OF r0]] r0 show "rootOf p j r" by simp
qed

lemma sameRoots_wellFormed: "sameRoots p p' \<Longrightarrow> wellFormed p \<Longrightarrow> wellFormed p'"
  by (simp add: sameRoots_def wellFormed_def)

lemma sameRoots_sameSet: "sameRoots p p' \<Longrightarrow> sameSet p' a b \<longleftrightarrow> sameSet p a b"
  by (simp add: sameRoots_def sameSet_def)

lemma find_uf_rootOf:
  "rootOf p i r \<Longrightarrow>
   \<exists>p'. find_uf p i = Some (r, p') \<and> length p' = length p \<and>
        (\<forall>j r'. rootOf p j r' \<longrightarrow> rootOf p' j r')"
proof (induction rule: rootOf.induct)
  case (root i parent)
  have "find_uf parent i = Some (i, parent)"
    by (subst find_uf.simps) (use root.hyps in simp)
  then show ?case by simp
next
  case (step i parent r)
  from step.IH obtain p1 where f: "find_uf parent (parent ! i) = Some (r, p1)"
    and len: "length p1 = length parent"
    and keep: "\<And>j r'. rootOf parent j r' \<Longrightarrow> rootOf p1 j r'" by blast
  from step.hyps have "rootOf parent i r" by (rule rootOf.step)
  then have ir: "rootOf p1 i r" by (rule keep)
  have "find_uf parent i = Some (r, p1[i := r])"
    by (subst find_uf.simps) (use step.hyps(1,2) f in simp)
  moreover have "rootOf (p1[i := r]) j r'" if "rootOf parent j r'" for j r'
    using keep [OF that] ir by (rule rootOf_compress)
  ultimately show ?case using len by simp
qed

lemma find_uf_ok:
  assumes "wellFormed p" "i < length p"
  obtains r p' where "find_uf p i = Some (r, p')" "rootOf p i r" "sameRoots p p'"
proof -
  from assms obtain r where r: "rootOf p i r" by (auto simp: wellFormed_def)
  from find_uf_rootOf [OF r] obtain p' where "find_uf p i = Some (r, p')"
    "length p' = length p" "\<And>j r'. rootOf p j r' \<Longrightarrow> rootOf p' j r'" by blast
  with r assms(1) show ?thesis by (intro that [of r p']) (auto intro: sameRootsI)
qed

lemma rootOf_link:
  "rootOf p j r \<Longrightarrow> ru < length p \<Longrightarrow> p ! ru = ru \<Longrightarrow> rv < length p \<Longrightarrow> p ! rv = rv \<Longrightarrow>
   ru \<noteq> rv \<Longrightarrow> rootOf (p[ru := rv]) j (if r = ru then rv else r)"
proof (induction rule: rootOf.induct)
  case (root j parent)
  show ?case
  proof (cases "j = ru")
    case True
    have "rootOf (parent[ru := rv]) rv rv" using root.prems by (simp add: rootOf.root)
    with True root.prems show ?thesis by (auto intro: rootOf.step)
  next
    case False
    with root.hyps show ?thesis by (simp add: rootOf.root)
  qed
next
  case (step j parent r)
  from step.hyps(2) step.prems(2) have "j \<noteq> ru" by auto
  with step.hyps(1,2) step.IH [OF step.prems] show ?case
    by (auto intro: rootOf.step)
qed

lemma union_uf_ok:
  assumes "wellFormed p" "i < length p" "j < length p"
  obtains p' where "union_uf p i j = Some p'" "wellFormed p'" "length p' = length p"
    "\<And>a b. a < length p \<Longrightarrow> b < length p \<Longrightarrow>
       sameSet p' a b \<longleftrightarrow>
         sameSet p a b \<or> (sameSet p a i \<and> sameSet p j b) \<or> (sameSet p a j \<and> sameSet p i b)"
proof -
  from find_uf_ok [OF assms(1,2)] obtain ri p1 where
    f1: "find_uf p i = Some (ri, p1)" and ri: "rootOf p i ri" and s1: "sameRoots p p1" .
  have w1: "wellFormed p1" using s1 assms(1) by (rule sameRoots_wellFormed)
  have l1: "length p1 = length p" using s1 by (simp add: sameRoots_def)
  from find_uf_ok [OF w1] assms(3) l1 obtain rj p2 where
    f2: "find_uf p1 j = Some (rj, p2)" and rj1: "rootOf p1 j rj" and s2: "sameRoots p1 p2"
    by metis
  have w2: "wellFormed p2" using s2 w1 by (rule sameRoots_wellFormed)
  have l2: "length p2 = length p" using s2 l1 by (simp add: sameRoots_def)
  have roots: "rootOf p2 a r \<longleftrightarrow> rootOf p a r" for a r
    using s1 s2 by (simp add: sameRoots_def)
  have ri2: "rootOf p2 i ri" and rj2: "rootOf p2 j rj"
    using ri rj1 s1 s2 by (simp_all add: sameRoots_def)
  have same2: "sameSet p2 a b \<longleftrightarrow> sameSet p a b" for a b
    by (simp add: sameSet_def roots)
  show ?thesis
  proof (cases "ri = rj")
    case True
    then have u: "union_uf p i j = Some p2" by (simp add: union_uf_def f1 f2)
    have ij: "sameSet p i j" using ri2 rj2 True by (auto simp: sameSet_def roots)
    have "sameSet p2 a b \<longleftrightarrow>
         sameSet p a b \<or> (sameSet p a i \<and> sameSet p j b) \<or> (sameSet p a j \<and> sameSet p i b)"
      for a b
      unfolding same2 using ij
      by (auto simp: sameSet_def dest: rootOf_unique)
    with u w2 l2 show ?thesis by (intro that [of p2]) auto
  next
    case False
    let ?p3 = "p2[ri := rj]"
    let ?f = "\<lambda>r. if r = ri then rj else r"
    have u: "union_uf p i j = Some ?p3" using False by (simp add: union_uf_def f1 f2)
    note ri' = rootOf_is_root [OF ri2] and rj' = rootOf_is_root [OF rj2]
    have link: "rootOf ?p3 a (?f r)" if "rootOf p2 a r" for a r
      using that ri' rj' False by (intro rootOf_link) simp_all
    have w3: "wellFormed ?p3"
      unfolding wellFormed_def
    proof (intro allI impI)
      fix a assume "a < length ?p3"
      then obtain r where "rootOf p2 a r" using w2 by (auto simp: wellFormed_def)
      from link [OF this] show "\<exists>r. rootOf ?p3 a r" by blast
    qed
    have char: "sameSet ?p3 a b \<longleftrightarrow>
         sameSet p a b \<or> (sameSet p a i \<and> sameSet p j b) \<or> (sameSet p a j \<and> sameSet p i b)"
      if ab: "a < length p" "b < length p" for a b
    proof -
      from w2 ab l2 have "\<exists>ra. rootOf p2 a ra" "\<exists>rb. rootOf p2 b rb"
        by (simp_all add: wellFormed_def)
      then obtain ra rb where ra: "rootOf p2 a ra" and rb: "rootOf p2 b rb" by blast
      have "sameSet ?p3 a b \<longleftrightarrow> ?f ra = ?f rb"
      proof
        assume "sameSet ?p3 a b"
        then obtain r where "rootOf ?p3 a r" "rootOf ?p3 b r" by (auto simp: sameSet_def)
        with link [OF ra] link [OF rb] show "?f ra = ?f rb"
          by (metis rootOf_unique)
      next
        assume "?f ra = ?f rb"
        with link [OF ra] link [OF rb] show "sameSet ?p3 a b"
          by (auto simp: sameSet_def)
      qed
      moreover have "sameSet p x y \<longleftrightarrow> rx = ry" if "rootOf p2 x rx" "rootOf p2 y ry" for x y rx ry
        using that unfolding sameSet_def roots [symmetric] by (auto dest: rootOf_unique)
      note this [OF ra rb] this [OF ra ri2] this [OF rj2 rb] this [OF ra rj2] this [OF ri2 rb]
      ultimately show ?thesis using False by auto
    qed
    from u w3 l2 char show ?thesis by (intro that [of ?p3]) auto
  qed
qed

subsection \<open>The pass computes the greedy selection\<close>

definition represents :: "nat list \<Rightarrow> nat \<Rightarrow> Edge list \<Rightarrow> bool" where
  "represents p n S =
     (wellFormed p \<and> length p = n \<and>
      (\<forall>a < n. \<forall>b < n. sameSet p a b \<longleftrightarrow> linked (set S) a b))"

lemma linked_empty: "linked {} a b \<longleftrightarrow> a = b"
  by (simp add: linked_def adjacent_def)

lemma UnionFind_represents: "represents (UnionFind n) n []"
proof -
  have r: "rootOf (UnionFind n) i i" if "i < n" for i
    using that by (intro rootOf.root) (simp_all add: UnionFind_def)
  have "sameSet (UnionFind n) a b \<longleftrightarrow> a = b" if "a < n" "b < n" for a b
    using r [OF that(1)] r [OF that(2)] by (auto simp: sameSet_def dest: rootOf_unique)
  moreover have "wellFormed (UnionFind n)"
    using r by (auto simp: wellFormed_def UnionFind_def)
  ultimately show ?thesis by (simp add: represents_def linked_empty UnionFind_def)
qed

lemma kruskalLoop_greedy:
  "\<forall>e \<in> set es. eu e < n \<and> ev e < n \<Longrightarrow> represents p n S \<Longrightarrow>
   \<exists>rem' p'. kruskalLoop es p S rem
     = Some (foldl takeEdge S (filter (\<lambda>e. weight e \<noteq> Infinity) es), rem', p')"
proof (induction es arbitrary: p S rem)
  case Nil
  then show ?case by simp
next
  case (Cons e es)
  have rest: "\<forall>e \<in> set es. eu e < n \<and> ev e < n" and un: "eu e < n" "ev e < n"
    using Cons.prems(1) by simp_all
  show ?case
  proof (cases "weight e = Infinity")
    case True
    with Cons.IH [OF rest Cons.prems(2), of rem] show ?thesis by simp
  next
    case False
    from Cons.prems(2) have w: "wellFormed p" and len: "length p = n"
      and rep: "\<And>a b. a < n \<Longrightarrow> b < n \<Longrightarrow> sameSet p a b \<longleftrightarrow> linked (set S) a b"
      by (simp_all add: represents_def)
    from find_uf_ok [OF w] un(1) len obtain ru p1 where
      f1: "find_uf p (eu e) = Some (ru, p1)" and ru: "rootOf p (eu e) ru"
      and s1: "sameRoots p p1" by metis
    have w1: "wellFormed p1" using s1 w by (rule sameRoots_wellFormed)
    have l1: "length p1 = n" using s1 len by (simp add: sameRoots_def)
    from find_uf_ok [OF w1] un(2) l1 obtain rv p2 where
      f2: "find_uf p1 (ev e) = Some (rv, p2)" and rv1: "rootOf p1 (ev e) rv"
      and s2: "sameRoots p1 p2" by metis
    have w2: "wellFormed p2" using s2 w1 by (rule sameRoots_wellFormed)
    have l2: "length p2 = n" using s2 l1 by (simp add: sameRoots_def)
    have rv: "rootOf p (ev e) rv" using rv1 s1 by (simp add: sameRoots_def)
    have same2: "sameSet p2 a b \<longleftrightarrow> sameSet p a b" for a b
      using s1 s2 by (simp add: sameRoots_sameSet)
    have test: "ru \<noteq> rv \<longleftrightarrow> \<not> linked (set S) (eu e) (ev e)"
      using ru rv rep [OF un] by (auto simp: sameSet_def dest: rootOf_unique)
    show ?thesis
    proof (cases "ru = rv")
      case True
      have "represents p2 n S"
        using w2 l2 rep by (simp add: represents_def same2)
      from Cons.IH [OF rest this, of "rem @ [e]"] True test False f1 f2
      show ?thesis by (simp add: takeEdge_def)
    next
      case neq: False
      from union_uf_ok [OF w2] un l2 obtain p3 where
        u: "union_uf p2 (eu e) (ev e) = Some p3" and w3: "wellFormed p3"
        and l3: "length p3 = length p2"
        and char: "\<And>a b. a < length p2 \<Longrightarrow> b < length p2 \<Longrightarrow>
           sameSet p3 a b \<longleftrightarrow>
             sameSet p2 a b \<or> (sameSet p2 a (eu e) \<and> sameSet p2 (ev e) b)
                            \<or> (sameSet p2 a (ev e) \<and> sameSet p2 (eu e) b)"
        by metis
      have "represents p3 n (S @ [e])"
        unfolding represents_def
      proof (intro conjI allI impI)
        show "wellFormed p3" by (rule w3)
        show "length p3 = n" using l3 l2 by simp
      next
        fix a b assume ab: "a < n" "b < n"
        show "sameSet p3 a b \<longleftrightarrow> linked (set (S @ [e])) a b"
          using char [of a b] ab un l2
          by (simp add: same2 rep linked_insert)
      qed
      from Cons.IH [OF rest this, of rem] neq test False f1 f2 u
      show ?thesis by (simp add: takeEdge_def)
    qed
  qed
qed

lemma kruskal_greedy:
  assumes "\<forall>e \<in> set allEdges. eu e < n \<and> ev e < n"
  shows "\<exists>rem' p'. kruskal n allEdges
     = Some (greedy (filter (\<lambda>e. weight e \<noteq> Infinity) (sortEdges allEdges)), rem', p')"
proof -
  have "\<forall>e \<in> set (sortEdges allEdges). eu e < n \<and> ev e < n"
    using assms by (simp add: sortEdges_def)
  from kruskalLoop_greedy [OF this UnionFind_represents]
  show ?thesis by (simp add: kruskal_def greedy_def)
qed

lemma sortedFinite_set:
  "set (filter (\<lambda>e. weight e \<noteq> Infinity) (sortEdges allEdges)) = finiteEdges allEdges"
  by (auto simp: sortEdges_def finiteEdges_def)

lemma sortedFinite_sorted:
  "sorted (map realWeight (filter (\<lambda>e. weight e \<noteq> Infinity) (sortEdges allEdges)))"
proof -
  let ?L = "filter (\<lambda>e. weight e \<noteq> Infinity) (sortEdges allEdges)"
  have "sorted (map sortKey (sortEdges allEdges))"
    by (simp add: sortEdges_def)
  then have "sorted (map sortKey ?L)" by (rule sorted_filter)
  then have "sorted_wrt (\<lambda>a b. sortKey a \<le> sortKey b) ?L"
    by (simp add: sorted_map)
  moreover have "realWeight a \<le> realWeight b"
    if "a \<in> set ?L" "b \<in> set ?L" "sortKey a \<le> sortKey b" for a b
    using that by (auto simp: sortKey_def realWeight_def split: Weight.splits)
  ultimately have "sorted_wrt (\<lambda>a b. realWeight a \<le> realWeight b) ?L"
    by (rule sorted_wrt_mono_rel [rotated]) 
  then show ?thesis by (simp add: sorted_map)
qed

text \<open>
  Claim C3. For every candidate edge list over the scattered nodes, the Kruskal pass
  returns, and the edge set it selects contains no edge of infinite weight, is acyclic,
  links exactly the nodes that the finite-weight edges link, and has a total weight that
  no acyclic set of finite-weight candidate edges spanning the same graph undercuts.
\<close>

theorem kruskal_minimum_spanning_forest:
  assumes "\<forall>e \<in> set allEdges. eu e < numNodes \<and> ev e < numNodes"
  shows "\<exists>mstEdges remainingEdges parent.
           kruskal numNodes allEdges = Some (mstEdges, remainingEdges, parent) \<and>
           set mstEdges \<subseteq> set allEdges \<and> distinct mstEdges \<and>
           (\<forall>e \<in> set mstEdges. weight e \<noteq> Infinity) \<and>
           acyclicEdges (set mstEdges) \<and>
           spans (set mstEdges) (finiteEdges allEdges) \<and>
           (\<forall>F. F \<subseteq> finiteEdges allEdges \<and> acyclicEdges F \<and> spans F (finiteEdges allEdges)
                \<longrightarrow> totalWeight mstEdges \<le> sum realWeight F)"
proof -
  let ?L = "filter (\<lambda>e. weight e \<noteq> Infinity) (sortEdges allEdges)"
  from kruskal_greedy [OF assms] obtain rem' p' where
    k: "kruskal numNodes allEdges = Some (greedy ?L, rem', p')" by blast
  have sub: "set (greedy ?L) \<subseteq> finiteEdges allEdges"
    using greedy_subset [of ?L] unfolding sortedFinite_set .
  have "set (greedy ?L) \<subseteq> set allEdges"
    using sub by (auto simp: finiteEdges_def)
  moreover have "\<forall>e \<in> set (greedy ?L). weight e \<noteq> Infinity"
    using sub by (auto simp: finiteEdges_def)
  moreover have "distinct (greedy ?L)" by (rule greedy_distinct)
  moreover have "acyclicEdges (set (greedy ?L))" by (rule greedy_acyclic)
  moreover have "spans (set (greedy ?L)) (finiteEdges allEdges)"
    using greedy_spans [of ?L] unfolding sortedFinite_set .
  moreover have "totalWeight (greedy ?L) \<le> sum realWeight F"
    if "F \<subseteq> finiteEdges allEdges" "acyclicEdges F" "spans F (finiteEdges allEdges)" for F
    by (rule greedy_minimal [OF sortedFinite_sorted])
      (use that in \<open>simp_all only: sortedFinite_set\<close>)
  ultimately show ?thesis using k by blast
qed

text \<open>
  Three nodes and four candidate edges, one of them across a river. The pass selects the
  two lightest edges; the tree made of the edges 0-1 and 0-2 is heavier.
\<close>

definition exampleEdges :: "Edge list" where
  "exampleEdges =
     [Edge 1 2 (Finite 2), Edge 0 1 (Finite 1), Edge 0 2 (Finite 3), Edge 0 2 Infinity]"

lemma kruskal_example:
  "kruskal 3 exampleEdges
     = Some ([Edge 0 1 (Finite 1), Edge 1 2 (Finite 2)], [Edge 0 2 (Finite 3)], [2, 2, 2])"
  by (simp add: kruskal_def exampleEdges_def sortEdges_def sortKey_def UnionFind_def
      union_uf_def find_uf.simps upt_rec less_eq_prod_def)

theorem kruskal_minimum_spanning_forest_witness:
  "list_all (\<lambda>e. eu e < 3 \<and> ev e < 3) exampleEdges \<and>
   (\<exists>remainingEdges parent. kruskal 3 exampleEdges
      = Some ([Edge 0 1 (Finite 1), Edge 1 2 (Finite 2)], remainingEdges, parent)) \<and>
   acyclicEdges {Edge 0 1 (Finite 1), Edge 0 2 (Finite 3)} \<and>
   spans {Edge 0 1 (Finite 1), Edge 0 2 (Finite 3)} (finiteEdges exampleEdges) \<and>
   totalWeight [Edge 0 1 (Finite 1), Edge 1 2 (Finite 2)]
     \<le> sum realWeight {Edge 0 1 (Finite 1), Edge 0 2 (Finite 3)}"
proof -
  let ?F = "{Edge 0 1 (Finite 1), Edge 0 2 (Finite 3)}"
  have bound: "\<forall>e \<in> set exampleEdges. eu e < 3 \<and> ev e < 3"
    by (simp add: exampleEdges_def)
  have fin: "finiteEdges exampleEdges
      = {Edge 1 2 (Finite 2), Edge 0 1 (Finite 1), Edge 0 2 (Finite 3)}"
    by (auto simp: finiteEdges_def exampleEdges_def)
  have sub: "?F \<subseteq> finiteEdges exampleEdges" by (simp add: fin)
  have acyc: "acyclicEdges ?F"
    by (simp add: acyclicEdges_def insert_Diff_if linked_insert linked_empty)
  have sp: "spans ?F (finiteEdges exampleEdges)"
    unfolding spans_def fin by (simp add: linked_insert linked_empty) metis
  from kruskal_minimum_spanning_forest [OF bound] obtain mstEdges remainingEdges parent where
    k: "kruskal 3 exampleEdges = Some (mstEdges, remainingEdges, parent)"
    and least: "\<forall>F. F \<subseteq> finiteEdges exampleEdges \<and> acyclicEdges F
                  \<and> spans F (finiteEdges exampleEdges)
                \<longrightarrow> totalWeight mstEdges \<le> sum realWeight F" by blast
  from k have m: "mstEdges = [Edge 0 1 (Finite 1), Edge 1 2 (Finite 2)]"
    by (simp add: kruskal_example)
  from least sub acyc sp have "totalWeight mstEdges \<le> sum realWeight ?F" by blast
  with k acyc sp bound show ?thesis by (simp add: m list_all_iff)
qed

section \<open>Path network: \<^verbatim>\<open>delaunayTriangulation\<close>\<close>

text \<open>
  \<^verbatim>\<open>Vertex2D\<close> and \<^verbatim>\<open>Triangle2D\<close>. The three vertices of the super-triangle carry the index
  -1, the input nodes their position in the node list. The source compares vertices and
  triangles as objects; the model compares their values, which is the same as long as
  the input nodes carry different indices. The cached \<^verbatim>\<open>circumcircle\<close> of a triangle is a
  function of its vertices and is recomputed here.
\<close>

datatype Vertex2D = Vertex2D (x2: real) (z2: real) (originalIndex: int)

datatype Triangle2D = Triangle2D (v0: Vertex2D) (v1: Vertex2D) (v2: Vertex2D)

type_synonym Edge2D = "Vertex2D \<times> Vertex2D"

text \<open>
  The circumcentre and the squared radius. For three collinear vertices the denominator
  \<^verbatim>\<open>D\<close> is zero and the source computes NaN or an infinity, against which every test
  \<^verbatim>\<open>distSq < radiusSq\<close> is false: the model has no circle then.
\<close>

definition circumcircle :: "Triangle2D \<Rightarrow> (real \<times> real \<times> real) option" where
  "circumcircle t =
     (let ax = x2 (v0 t); az = z2 (v0 t);
          bx = x2 (v1 t); bz = z2 (v1 t);
          cx = x2 (v2 t); cz = z2 (v2 t);
          D = 2 * (ax * (bz - cz) + bx * (cz - az) + cx * (az - bz))
      in if D = 0 then None
         else (let ux = ((ax * ax + az * az) * (bz - cz) + (bx * bx + bz * bz) * (cz - az)
                         + (cx * cx + cz * cz) * (az - bz)) / D;
                   uz = ((ax * ax + az * az) * (cx - bx) + (bx * bx + bz * bz) * (ax - cx)
                         + (cx * cx + cz * cz) * (bx - ax)) / D;
                   radiusSq = (ax - ux) ^ 2 + (az - uz) ^ 2
               in Some (ux, uz, radiusSq)))"

text \<open>A triangle is bad for a point that lies strictly inside its circumcircle.\<close>

definition inCircumcircle :: "Vertex2D \<Rightarrow> Triangle2D \<Rightarrow> bool" where
  "inCircumcircle p t =
     (case circumcircle t of
        None \<Rightarrow> False
      | Some (ux, uz, radiusSq) \<Rightarrow> (x2 p - ux) ^ 2 + (z2 p - uz) ^ 2 < radiusSq)"

definition edgesOf :: "Triangle2D \<Rightarrow> Edge2D list" where
  "edgesOf t = [(v0 t, v1 t), (v1 t, v2 t), (v2 t, v0 t)]"

definition sameEdge :: "Edge2D \<Rightarrow> Edge2D \<Rightarrow> bool" where
  "sameEdge e otherEdge =
     ((fst e = fst otherEdge \<and> snd e = snd otherEdge)
      \<or> (fst e = snd otherEdge \<and> snd e = fst otherEdge))"

text \<open>
  The boundary of the hole: the edges of bad triangles that no other bad triangle (at
  another position \<^verbatim>\<open>j\<close> of the list) shares.
\<close>

definition isShared :: "Triangle2D list \<Rightarrow> nat \<Rightarrow> Edge2D \<Rightarrow> bool" where
  "isShared badTriangles i e =
     list_ex (\<lambda>j. j \<noteq> i \<and> list_ex (sameEdge e) (edgesOf (badTriangles ! j)))
             [0..<length badTriangles]"

definition holeBoundary :: "Triangle2D list \<Rightarrow> Edge2D list" where
  "holeBoundary badTriangles =
     concat (map (\<lambda>i. filter (\<lambda>e. \<not> isShared badTriangles i e) (edgesOf (badTriangles ! i)))
                 [0..<length badTriangles])"

text \<open>One turn of \<^verbatim>\<open>points.forEach\<close>: the triangle list after a point is added.\<close>

definition addPoint :: "Triangle2D list \<Rightarrow> Vertex2D \<Rightarrow> Triangle2D list" where
  "addPoint triangles p =
     (let badTriangles = filter (inCircumcircle p) triangles;
          polygon = holeBoundary badTriangles
      in filter (\<lambda>t. t \<notin> set badTriangles) triangles
         @ map (\<lambda>e. Triangle2D (fst e) (snd e) p) polygon)"

text \<open>
  The super-triangle around the bounding box of the points. (For an empty list the
  bounding box of the source is empty and every coordinate of the super-triangle is NaN;
  the result is the empty list. The caller passes at least three nodes.)
\<close>

definition superTriangle :: "Vertex2D list \<Rightarrow> Triangle2D" where
  "superTriangle points =
     (let minX = Min (set (map x2 points)); maxX = Max (set (map x2 points));
          minZ = Min (set (map z2 points)); maxZ = Max (set (map z2 points));
          dx = maxX - minX; dz = maxZ - minZ;
          deltaMax = max dx dz;
          midX = minX + dx * 0.5; midZ = minZ + dz * 0.5
      in Triangle2D (Vertex2D (midX - 20 * deltaMax) (midZ - deltaMax) (- 1))
                    (Vertex2D midX (midZ + 20 * deltaMax) (- 1))
                    (Vertex2D (midX + 20 * deltaMax) (midZ - deltaMax) (- 1)))"

definition delaunayTriangulation :: "Vertex2D list \<Rightarrow> Triangle2D list" where
  "delaunayTriangulation points =
     (if points = [] then []
      else filter (\<lambda>t. \<not> (originalIndex (v0 t) = - 1 \<or> originalIndex (v1 t) = - 1
                           \<or> originalIndex (v2 t) = - 1))
                  (foldl addPoint [superTriangle points] points))"

text \<open>
  The empty-circumcircle property of a triangle list: no node other than a triangle's
  own vertices lies strictly inside that triangle's circumcircle.
\<close>

definition emptyCircumcircles :: "Vertex2D list \<Rightarrow> Triangle2D list \<Rightarrow> bool" where
  "emptyCircumcircles points triangles =
     list_all (\<lambda>t. list_all (\<lambda>q. q = v0 t \<or> q = v1 t \<or> q = v2 t \<or> \<not> inCircumcircle q t)
                             points)
              triangles"

text \<open>Four nodes: the corners of a right triangle and a point near its hypotenuse.\<close>

definition exampleNodes :: "Vertex2D list" where
  "exampleNodes = [Vertex2D 0 0 0, Vertex2D 4 0 1, Vertex2D 0 4 2, Vertex2D 3 3 3]"

text \<open>
  On these nodes the triangulation keeps the diagonal from the origin to the fourth node,
  not the hypotenuse, and the two circumcircles hold no other node.
\<close>

lemma delaunayTriangulation_example:
  "delaunayTriangulation exampleNodes =
     [Triangle2D (Vertex2D 4 0 1) (Vertex2D 0 0 0) (Vertex2D 3 3 3),
      Triangle2D (Vertex2D 0 0 0) (Vertex2D 0 4 2) (Vertex2D 3 3 3)]"
  by code_simp

lemma emptyCircumcircles_example:
  "emptyCircumcircles exampleNodes (delaunayTriangulation exampleNodes)"
  by code_simp

end
